theory Spec2Isabelle
  imports Main
begin

section \<open>Memory, failures and the element type\<close>

text \<open>
  The header \<^verbatim>\<open>vector.h\<close> defines two class templates over an element type \<open>T\<close>:
  \<open>RawMemory<T>\<close>, which owns a block of raw storage, and \<open>Vector<T>\<close>, which owns one
  \<open>RawMemory<T>\<close> and a count of live elements. The model keeps the heap explicit. A block
  is a list of slots; a slot is \<open>None\<close> while it is raw storage and \<open>Some x\<close> while it
  holds a live object of value \<open>x\<close>. A pointer \<open>T*\<close> is the base address of a block
  (\<open>None\<close> for \<open>nullptr\<close>) together with an element offset.
\<close>

type_synonym addr = nat
type_synonym ptr = "addr option \<times> nat"

text \<open>
  C++ exceptions unwind the stack and can be caught. A failed \<open>assert\<close> aborts the
  program, and undefined behaviour (reading raw storage, writing outside a block, freeing
  twice) has no continuation; neither runs any destructor.
\<close>

datatype exn = bad_alloc | element_exception

datatype failure = Exception exn | AssertionFailed | Undefined

text \<open>
  What the templates know or use of \<open>T\<close> and of the platform: \<open>sizeof(T)\<close>, the two type
  traits read by \<open>InitializeDataUsingOtherData\<close>, the value of \<open>T()\<close>, the state in which
  a move leaves its source, and a failure schedule: the \<open>k\<close>-th step that is allowed to
  throw (an allocation, or a constructor or assignment of \<open>T\<close>) throws iff
  \<open>fails_at k\<close>. A test element type that throws on its \<open>N\<close>-th construction is such a
  schedule.
\<close>

record 'a env =
  sizeof_T :: nat
  is_nothrow_move_constructible :: bool
  is_copy_constructible :: bool
  value_initialized :: 'a
  moved_from :: "'a \<Rightarrow> 'a"
  fails_at :: "nat \<Rightarrow> bool"

record 'a machine =
  heap :: "addr \<Rightarrow> 'a option list option"
  brk :: addr
  clock :: nat

text \<open>\<open>size_t\<close> is a 64-bit unsigned integer; its arithmetic wraps modulo \<open>size_t_range\<close>.\<close>

definition size_t_range :: nat where
  "size_t_range = 2 ^ 64"

definition bind ::
  "('s \<Rightarrow> (failure + 'r) \<times> 's) \<Rightarrow> ('r \<Rightarrow> 's \<Rightarrow> (failure + 'q) \<times> 's) \<Rightarrow> 's \<Rightarrow> (failure + 'q) \<times> 's"
where
  "bind f g s = (case f s of (Inl e, s1) \<Rightarrow> (Inl e, s1) | (Inr x, s1) \<Rightarrow> g x s1)"

text \<open>
  \<open>cleanup_rethrow body handler\<close> is \<^verbatim>\<open>try { body } catch (...) { handler; throw; }\<close>, and
  also the destructor call that stack unwinding makes for a local object.
\<close>

definition cleanup_rethrow ::
  "('s \<Rightarrow> (failure + 'r) \<times> 's) \<Rightarrow> ('s \<Rightarrow> (failure + unit) \<times> 's) \<Rightarrow> 's \<Rightarrow> (failure + 'r) \<times> 's"
where
  "cleanup_rethrow body handler s =
     (case body s of
        (Inl (Exception e), s1) \<Rightarrow>
          (case handler s1 of
             (Inl f, s2) \<Rightarrow> (Inl f, s2)
           | (Inr _, s2) \<Rightarrow> (Inl (Exception e), s2))
      | r \<Rightarrow> r)"

definition assert :: "bool \<Rightarrow> 's \<Rightarrow> (failure + unit) \<times> 's" where
  "assert b s = (if b then (Inr (), s) else (Inl AssertionFailed, s))"

definition may_throw :: "'a env \<Rightarrow> exn \<Rightarrow> 'a machine \<Rightarrow> (failure + unit) \<times> 'a machine" where
  "may_throw env e m =
     (if fails_at env (clock m) then Inl (Exception e) else Inr (),
      m\<lparr>clock := Suc (clock m)\<rparr>)"

subsection \<open>Slots\<close>

definition ptr_add :: "ptr \<Rightarrow> nat \<Rightarrow> ptr" where
  "ptr_add p k = (fst p, snd p + k)"

text \<open>
  \<open>slot_of m p\<close> is \<open>None\<close> when \<open>p\<close> does not point into a block, \<open>Some None\<close> when it
  points at raw storage and \<open>Some (Some x)\<close> when it points at a live object.
\<close>

definition slot_of :: "'a machine \<Rightarrow> ptr \<Rightarrow> 'a option option" where
  "slot_of m p =
     (case fst p of
        None \<Rightarrow> None
      | Some a \<Rightarrow>
          (case heap m a of
             None \<Rightarrow> None
           | Some blk \<Rightarrow> if snd p < length blk then Some (blk ! snd p) else None))"

definition poke :: "ptr \<Rightarrow> 'a option \<Rightarrow> 'a machine \<Rightarrow> 'a machine" where
  "poke p s m =
     (case fst p of
        None \<Rightarrow> m
      | Some a \<Rightarrow>
          (case heap m a of
             None \<Rightarrow> m
           | Some blk \<Rightarrow> m\<lparr>heap := (heap m)(a \<mapsto> blk[snd p := s])\<rparr>))"

text \<open>Placement of a finished object into a slot: the slot must exist.\<close>

definition construct_at :: "ptr \<Rightarrow> 'a \<Rightarrow> 'a machine \<Rightarrow> (failure + unit) \<times> 'a machine" where
  "construct_at p x m =
     (case slot_of m p of
        None \<Rightarrow> (Inl Undefined, m)
      | Some _ \<Rightarrow> (Inr (), poke p (Some x) m))"

text \<open>\<open>p->~T()\<close>: destructors do not throw; the object must be live.\<close>

definition destroy_at :: "ptr \<Rightarrow> 'a machine \<Rightarrow> (failure + unit) \<times> 'a machine" where
  "destroy_at p m =
     (case slot_of m p of
        Some (Some _) \<Rightarrow> (Inr (), poke p None m)
      | _ \<Rightarrow> (Inl Undefined, m))"

definition load :: "ptr \<Rightarrow> 'a machine \<Rightarrow> (failure + 'a) \<times> 'a machine" where
  "load p m =
     (case slot_of m p of
        Some (Some x) \<Rightarrow> (Inr x, m)
      | _ \<Rightarrow> (Inl Undefined, m))"

text \<open>Overwriting the value of a live object.\<close>

definition set_value :: "ptr \<Rightarrow> 'a \<Rightarrow> 'a machine \<Rightarrow> (failure + unit) \<times> 'a machine" where
  "set_value p x m =
     (case slot_of m p of
        Some (Some _) \<Rightarrow> (Inr (), poke p (Some x) m)
      | _ \<Rightarrow> (Inl Undefined, m))"

subsection \<open>Operations of \<open>T\<close>\<close>

text \<open>A move constructor that is \<open>noexcept\<close> cannot throw.\<close>

definition move_ctor_may_throw :: "'a env \<Rightarrow> 'a machine \<Rightarrow> (failure + unit) \<times> 'a machine" where
  "move_ctor_may_throw env =
     (if is_nothrow_move_constructible env then (\<lambda>m. (Inr (), m))
      else may_throw env element_exception)"

text \<open>
  The arguments that \<open>Emplace\<close> forwards to a constructor of \<open>T\<close>:
  \<^item> \<open>CopyOf x\<close>: a \<open>const T&\<close> to an object of value \<open>x\<close> (copy construction, the
    \<open>PushBack\<close> and \<open>Insert\<close> overloads taking \<open>const T&\<close>). In both insertion paths the
    constructor call comes before any element is touched, so an argument that refers to
    an element of the vector itself is copied with the value it has at the call.
  \<^item> \<open>MoveOf x\<close>: a \<open>T&&\<close> (move construction, the overloads taking \<open>T&&\<close>) to an object
    of value \<open>x\<close> that is not in a storage block: a temporary or a local object of the
    caller. What the move leaves in it is not part of the state.
  \<^item> \<open>MoveFrom p\<close>: a \<open>T&&\<close> to the live object at \<open>p\<close>, as in
    \<open>Insert(pos, std::move(v[0]))\<close>. The move constructor leaves that object moved-from.
  \<^item> \<open>Args x\<close>: any other argument pack, from which the constructor builds \<open>x\<close>.
\<close>

datatype 'a ctor_args = CopyOf 'a | MoveOf 'a | MoveFrom ptr | Args 'a

text \<open>
  The value that the constructor builds when the arguments name no object of the heap,
  and the blocks in which the constructor call itself writes.
\<close>

fun given :: "'a ctor_args \<Rightarrow> 'a option" where
  "given (CopyOf x) = Some x"
| "given (MoveOf x) = Some x"
| "given (MoveFrom p) = None"
| "given (Args x) = Some x"

fun moved_source :: "'a ctor_args \<Rightarrow> addr option set" where
  "moved_source (MoveFrom p) = {fst p}"
| "moved_source (CopyOf x) = {}"
| "moved_source (MoveOf x) = {}"
| "moved_source (Args x) = {}"

text \<open>\<open>T temp(args...)\<close>: the constructor runs and may throw.\<close>

fun T_make :: "'a env \<Rightarrow> 'a ctor_args \<Rightarrow> 'a machine \<Rightarrow> (failure + 'a) \<times> 'a machine" where
  "T_make env (CopyOf x) = bind (may_throw env element_exception) (\<lambda>_ m. (Inr x, m))"
| "T_make env (MoveOf x) = bind (move_ctor_may_throw env) (\<lambda>_ m. (Inr x, m))"
| "T_make env (MoveFrom p) =
     bind (load p) (\<lambda>x.
     bind (move_ctor_may_throw env) (\<lambda>_.
     bind (set_value p (moved_from env x)) (\<lambda>_ m. (Inr x, m))))"
| "T_make env (Args x) = bind (may_throw env element_exception) (\<lambda>_ m. (Inr x, m))"

text \<open>\<open>new (p) T(args...)\<close>\<close>

definition T_construct :: "'a env \<Rightarrow> 'a ctor_args \<Rightarrow> ptr \<Rightarrow> 'a machine \<Rightarrow> (failure + unit) \<times> 'a machine" where
  "T_construct env args p = bind (T_make env args) (\<lambda>x. construct_at p x)"

text \<open>\<open>new (p) T()\<close>\<close>

definition T_value_construct :: "'a env \<Rightarrow> ptr \<Rightarrow> 'a machine \<Rightarrow> (failure + unit) \<times> 'a machine" where
  "T_value_construct env p =
     bind (may_throw env element_exception) (\<lambda>_. construct_at p (value_initialized env))"

text \<open>\<open>new (dst) T(*src)\<close>\<close>

definition T_copy_construct :: "'a env \<Rightarrow> ptr \<Rightarrow> ptr \<Rightarrow> 'a machine \<Rightarrow> (failure + unit) \<times> 'a machine" where
  "T_copy_construct env src dst =
     bind (load src) (\<lambda>x.
     bind (may_throw env element_exception) (\<lambda>_.
     construct_at dst x))"

text \<open>\<open>new (dst) T(std::move(*src))\<close>: after it the source holds its moved-from value.\<close>

definition T_move_construct :: "'a env \<Rightarrow> ptr \<Rightarrow> ptr \<Rightarrow> 'a machine \<Rightarrow> (failure + unit) \<times> 'a machine" where
  "T_move_construct env src dst =
     bind (load src) (\<lambda>x.
     bind (move_ctor_may_throw env) (\<lambda>_.
     bind (construct_at dst x) (\<lambda>_.
     set_value src (moved_from env x))))"

text \<open>\<open>*dst = *src\<close>\<close>

definition T_copy_assign :: "'a env \<Rightarrow> ptr \<Rightarrow> ptr \<Rightarrow> 'a machine \<Rightarrow> (failure + unit) \<times> 'a machine" where
  "T_copy_assign env src dst =
     bind (load src) (\<lambda>x.
     bind (load dst) (\<lambda>_.
     bind (may_throw env element_exception) (\<lambda>_.
     set_value dst x)))"

text \<open>\<open>*dst = std::move(*src)\<close>\<close>

definition T_move_assign :: "'a env \<Rightarrow> ptr \<Rightarrow> ptr \<Rightarrow> 'a machine \<Rightarrow> (failure + unit) \<times> 'a machine" where
  "T_move_assign env src dst =
     bind (load src) (\<lambda>x.
     bind (load dst) (\<lambda>_.
     bind (may_throw env element_exception) (\<lambda>_.
     bind (set_value dst x) (\<lambda>_.
     set_value src (moved_from env x)))))"

text \<open>\<open>*dst = std::move(temp)\<close> for a local object \<open>temp\<close> of value \<open>x\<close>.\<close>

definition T_move_assign_from_local :: "'a env \<Rightarrow> 'a \<Rightarrow> ptr \<Rightarrow> 'a machine \<Rightarrow> (failure + unit) \<times> 'a machine" where
  "T_move_assign_from_local env x dst =
     bind (load dst) (\<lambda>_.
     bind (may_throw env element_exception) (\<lambda>_.
     set_value dst x))"

subsection \<open>The algorithms of \<open><memory>\<close> and \<open><algorithm>\<close> that the header calls\<close>

text \<open>
  They are modelled from the C++ standard. The \<open>uninitialized_\<close> algorithms construct
  one object after the other; when a construction throws, the objects already
  constructed are destroyed and the exception is rethrown.
\<close>

fun destroy_n :: "ptr \<Rightarrow> nat \<Rightarrow> 'a machine \<Rightarrow> (failure + unit) \<times> 'a machine" where
  "destroy_n p 0 = (\<lambda>m. (Inr (), m))"
| "destroy_n p (Suc n) = bind (destroy_at p) (\<lambda>_. destroy_n (ptr_add p 1) n)"

fun uninitialized_value_construct_n ::
  "'a env \<Rightarrow> ptr \<Rightarrow> nat \<Rightarrow> 'a machine \<Rightarrow> (failure + unit) \<times> 'a machine" where
  "uninitialized_value_construct_n env p 0 = (\<lambda>m. (Inr (), m))"
| "uninitialized_value_construct_n env p (Suc n) =
     bind (T_value_construct env p) (\<lambda>_.
     cleanup_rethrow (uninitialized_value_construct_n env (ptr_add p 1) n) (destroy_at p))"

fun uninitialized_copy_n ::
  "'a env \<Rightarrow> ptr \<Rightarrow> nat \<Rightarrow> ptr \<Rightarrow> 'a machine \<Rightarrow> (failure + unit) \<times> 'a machine" where
  "uninitialized_copy_n env src 0 dst = (\<lambda>m. (Inr (), m))"
| "uninitialized_copy_n env src (Suc n) dst =
     bind (T_copy_construct env src dst) (\<lambda>_.
     cleanup_rethrow (uninitialized_copy_n env (ptr_add src 1) n (ptr_add dst 1))
       (destroy_at dst))"

fun uninitialized_move_n ::
  "'a env \<Rightarrow> ptr \<Rightarrow> nat \<Rightarrow> ptr \<Rightarrow> 'a machine \<Rightarrow> (failure + unit) \<times> 'a machine" where
  "uninitialized_move_n env src 0 dst = (\<lambda>m. (Inr (), m))"
| "uninitialized_move_n env src (Suc n) dst =
     bind (T_move_construct env src dst) (\<lambda>_.
     cleanup_rethrow (uninitialized_move_n env (ptr_add src 1) n (ptr_add dst 1))
       (destroy_at dst))"

text \<open>
  \<open>std::copy\<close>, \<open>std::move\<close> and \<open>std::move_backward\<close> assign element by element. The
  range \<open>[first, last)\<close> must lie in one array.
\<close>

fun copy_loop :: "'a env \<Rightarrow> ptr \<Rightarrow> nat \<Rightarrow> ptr \<Rightarrow> 'a machine \<Rightarrow> (failure + unit) \<times> 'a machine" where
  "copy_loop env src 0 dst = (\<lambda>m. (Inr (), m))"
| "copy_loop env src (Suc n) dst =
     bind (T_copy_assign env src dst) (\<lambda>_. copy_loop env (ptr_add src 1) n (ptr_add dst 1))"

definition std_copy :: "'a env \<Rightarrow> ptr \<Rightarrow> ptr \<Rightarrow> ptr \<Rightarrow> 'a machine \<Rightarrow> (failure + unit) \<times> 'a machine" where
  "std_copy env first lst d_first m =
     (if fst first = fst lst \<and> snd first \<le> snd lst
      then copy_loop env first (snd lst - snd first) d_first m
      else (Inl Undefined, m))"

fun move_loop :: "'a env \<Rightarrow> ptr \<Rightarrow> nat \<Rightarrow> ptr \<Rightarrow> 'a machine \<Rightarrow> (failure + unit) \<times> 'a machine" where
  "move_loop env src 0 dst = (\<lambda>m. (Inr (), m))"
| "move_loop env src (Suc n) dst =
     bind (T_move_assign env src dst) (\<lambda>_. move_loop env (ptr_add src 1) n (ptr_add dst 1))"

definition std_move :: "'a env \<Rightarrow> ptr \<Rightarrow> ptr \<Rightarrow> ptr \<Rightarrow> 'a machine \<Rightarrow> (failure + unit) \<times> 'a machine" where
  "std_move env first lst d_first m =
     (if fst first = fst lst \<and> snd first \<le> snd lst
      then move_loop env first (snd lst - snd first) d_first m
      else (Inl Undefined, m))"

text \<open>
  \<open>move_backward_loop env first n d_first\<close> assigns the \<open>n\<close> elements from \<open>first\<close> to the
  \<open>n\<close> slots from \<open>d_first\<close>, the last one first, as
  \<^verbatim>\<open>while (first != last) *(--d_last) = std::move(*(--last));\<close> does.
\<close>

fun move_backward_loop ::
  "'a env \<Rightarrow> ptr \<Rightarrow> nat \<Rightarrow> ptr \<Rightarrow> 'a machine \<Rightarrow> (failure + unit) \<times> 'a machine" where
  "move_backward_loop env first 0 d_first = (\<lambda>m. (Inr (), m))"
| "move_backward_loop env first (Suc n) d_first =
     bind (T_move_assign env (ptr_add first n) (ptr_add d_first n)) (\<lambda>_.
     move_backward_loop env first n d_first)"

definition std_move_backward ::
  "'a env \<Rightarrow> ptr \<Rightarrow> ptr \<Rightarrow> ptr \<Rightarrow> 'a machine \<Rightarrow> (failure + unit) \<times> 'a machine" where
  "std_move_backward env first lst d_last m =
     (if fst first = fst lst \<and> snd first \<le> snd lst \<and> snd lst - snd first \<le> snd d_last
      then move_backward_loop env first (snd lst - snd first)
             (fst d_last, snd d_last - (snd lst - snd first)) m
      else (Inl Undefined, m))"

section \<open>\<open>RawMemory<T>\<close>\<close>

text \<open>The data members \<open>buffer_\<close> and \<open>capacity_\<close> are the fields \<open>m_buffer\<close> and \<open>m_capacity\<close>.\<close>

record RawMemory =
  m_buffer :: "addr option"
  m_capacity :: nat

text \<open>
  \<open>operator new(bytes)\<close> throws \<open>std::bad_alloc\<close> or returns a block of \<open>bytes\<close> bytes at an
  address never used before; the block has room for \<open>bytes div sizeof(T)\<close> objects.
  \<open>operator delete\<close> ignores a null pointer.
\<close>

definition operator_new :: "'a env \<Rightarrow> nat \<Rightarrow> 'a machine \<Rightarrow> (failure + addr option) \<times> 'a machine" where
  "operator_new env bytes =
     bind (may_throw env bad_alloc) (\<lambda>_ m.
       (Inr (Some (brk m)),
        m\<lparr>heap := (heap m)(brk m \<mapsto> replicate (bytes div sizeof_T env) None),
          brk := Suc (brk m)\<rparr>))"

definition operator_delete :: "addr option \<Rightarrow> 'a machine \<Rightarrow> (failure + unit) \<times> 'a machine" where
  "operator_delete buf m =
     (case buf of
        None \<Rightarrow> (Inr (), m)
      | Some a \<Rightarrow>
          (case heap m a of
             None \<Rightarrow> (Inl Undefined, m)
           | Some _ \<Rightarrow> (Inr (), m\<lparr>heap := (heap m)(a := None)\<rparr>)))"

text \<open>\<^verbatim>\<open>return n != 0 ? static_cast<T*>(operator new(n * sizeof(T))) : nullptr;\<close>\<close>

definition Allocate :: "'a env \<Rightarrow> nat \<Rightarrow> 'a machine \<Rightarrow> (failure + addr option) \<times> 'a machine" where
  "Allocate env n m =
     (if n \<noteq> 0 then operator_new env (n * sizeof_T env mod size_t_range) m
      else (Inr None, m))"

definition Deallocate :: "addr option \<Rightarrow> 'a machine \<Rightarrow> (failure + unit) \<times> 'a machine" where
  "Deallocate buf = operator_delete buf"

definition RawMemory_default :: RawMemory where
  "RawMemory_default = \<lparr>m_buffer = None, m_capacity = 0\<rparr>"

text \<open>\<open>explicit RawMemory(size_t capacity)\<close>\<close>

definition RawMemory_ctor :: "'a env \<Rightarrow> nat \<Rightarrow> 'a machine \<Rightarrow> (failure + RawMemory) \<times> 'a machine" where
  "RawMemory_ctor env capacity =
     bind (Allocate env capacity) (\<lambda>b m. (Inr \<lparr>m_buffer = b, m_capacity = capacity\<rparr>, m))"

text \<open>
  \<open>RawMemory(RawMemory&& other)\<close>: the result is the new object and the state in which
  \<open>other\<close> is left.
\<close>

definition RawMemory_move_ctor :: "RawMemory \<Rightarrow> RawMemory \<times> RawMemory" where
  "RawMemory_move_ctor other =
     (\<lparr>m_buffer = m_buffer other, m_capacity = m_capacity other\<rparr>, other\<lparr>m_buffer := None\<rparr>)"

text \<open>\<open>void Swap(RawMemory& other)\<close>: the new states of \<open>*this\<close> and of \<open>other\<close>.\<close>

definition RawMemory_Swap :: "RawMemory \<Rightarrow> RawMemory \<Rightarrow> RawMemory \<times> RawMemory" where
  "RawMemory_Swap this other =
     (this\<lparr>m_buffer := m_buffer other, m_capacity := m_capacity other\<rparr>,
      other\<lparr>m_buffer := m_buffer this, m_capacity := m_capacity this\<rparr>)"

text \<open>
  \<open>RawMemory& operator=(RawMemory&& rhs)\<close> compares the addresses of its two operands, so
  the objects are taken from a store that maps object identities to their states.
\<close>

definition RawMemory_move_assign :: "nat \<Rightarrow> nat \<Rightarrow> (nat \<Rightarrow> RawMemory) \<Rightarrow> (nat \<Rightarrow> RawMemory)" where
  "RawMemory_move_assign this rhs objs =
     (if this \<noteq> rhs
      then (case RawMemory_Swap (objs this) (objs rhs) of (a, b) \<Rightarrow> objs(this := a, rhs := b))
      else objs)"

definition RawMemory_dtor :: "RawMemory \<Rightarrow> 'a machine \<Rightarrow> (failure + unit) \<times> 'a machine" where
  "RawMemory_dtor this = Deallocate (m_buffer this)"

text \<open>\<open>T* operator+(size_t offset)\<close> and \<open>T& operator[](size_t index)\<close>, with their assertions.\<close>

definition RawMemory_plus :: "RawMemory \<Rightarrow> nat \<Rightarrow> 's \<Rightarrow> (failure + ptr) \<times> 's" where
  "RawMemory_plus this offset =
     bind (assert (offset \<le> m_capacity this)) (\<lambda>_ s. (Inr (m_buffer this, offset), s))"

definition RawMemory_index :: "RawMemory \<Rightarrow> nat \<Rightarrow> 's \<Rightarrow> (failure + ptr) \<times> 's" where
  "RawMemory_index this index =
     bind (assert (index < m_capacity this)) (\<lambda>_ s. (Inr (m_buffer this, index), s))"

definition GetAddress :: "RawMemory \<Rightarrow> ptr" where
  "GetAddress this = (m_buffer this, 0)"

definition RawMemory_Capacity :: "RawMemory \<Rightarrow> nat" where
  "RawMemory_Capacity this = m_capacity this"

section \<open>\<open>Vector<T>\<close>\<close>

text \<open>The data members \<open>data_\<close> and \<open>size_\<close> are the fields \<open>m_data\<close> and \<open>m_size\<close>.\<close>

record Vector =
  m_data :: RawMemory
  m_size :: nat

text \<open>
  A member function takes the fields of \<open>*this\<close> and the machine. Its body returns a
  failure, or its result together with the new fields; \<open>member\<close> makes of it a function
  that returns the fields in every case. The bodies below write the fields only after
  their last step that can throw, so a thrown exception leaves the fields as they were.
\<close>

definition member ::
  "Vector \<Rightarrow> ('a machine \<Rightarrow> (failure + 'r \<times> Vector) \<times> 'a machine) \<Rightarrow> 'a machine
   \<Rightarrow> (failure + 'r) \<times> Vector \<times> 'a machine"
where
  "member this body m =
     (case body m of
        (Inl f, m1) \<Rightarrow> (Inl f, this, m1)
      | (Inr (r, this1), m1) \<Rightarrow> (Inr r, this1, m1))"

definition Size :: "Vector \<Rightarrow> nat" where
  "Size this = m_size this"

definition Capacity :: "Vector \<Rightarrow> nat" where
  "Capacity this = RawMemory_Capacity (m_data this)"

definition Vector_begin :: "Vector \<Rightarrow> ptr" where
  "Vector_begin this = GetAddress (m_data this)"

definition Vector_end :: "Vector \<Rightarrow> 's \<Rightarrow> (failure + ptr) \<times> 's" where
  "Vector_end this = RawMemory_plus (m_data this) (m_size this)"

text \<open>
  The relational operators on pointers into different arrays have no specified result;
  the model stops there. \<open>pos - cbegin()\<close> is the offset of \<open>pos\<close>, as \<open>cbegin()\<close> is the
  start of the block.
\<close>

definition ptr_le :: "ptr \<Rightarrow> ptr \<Rightarrow> 's \<Rightarrow> (failure + bool) \<times> 's" where
  "ptr_le p q s = (if fst p = fst q then (Inr (snd p \<le> snd q), s) else (Inl Undefined, s))"

definition ptr_less :: "ptr \<Rightarrow> ptr \<Rightarrow> 's \<Rightarrow> (failure + bool) \<times> 's" where
  "ptr_less p q s = (if fst p = fst q then (Inr (snd p < snd q), s) else (Inl Undefined, s))"

definition ptr_diff :: "ptr \<Rightarrow> ptr \<Rightarrow> nat" where
  "ptr_diff p q = snd p - snd q"

subsection \<open>Construction and destruction\<close>

definition Vector_default :: Vector where
  "Vector_default = \<lparr>m_data = RawMemory_default, m_size = 0\<rparr>"

text \<open>
  \<open>explicit Vector(size_t size)\<close> and \<open>Vector(const Vector& other)\<close>. When the
  construction of the elements throws, the member \<open>m_data\<close>, already constructed, is
  destroyed.
\<close>

definition Vector_sized :: "'a env \<Rightarrow> nat \<Rightarrow> 'a machine \<Rightarrow> (failure + Vector) \<times> 'a machine" where
  "Vector_sized env n =
     bind (RawMemory_ctor env n) (\<lambda>d.
     cleanup_rethrow
       (bind (uninitialized_value_construct_n env (GetAddress d) n) (\<lambda>_ m.
          (Inr \<lparr>m_data = d, m_size = n\<rparr>, m)))
       (RawMemory_dtor d))"

definition Vector_copy :: "'a env \<Rightarrow> Vector \<Rightarrow> 'a machine \<Rightarrow> (failure + Vector) \<times> 'a machine" where
  "Vector_copy env other =
     bind (RawMemory_ctor env (m_size other)) (\<lambda>d.
     cleanup_rethrow
       (bind (uninitialized_copy_n env (GetAddress (m_data other)) (m_size other) (GetAddress d))
          (\<lambda>_ m. (Inr \<lparr>m_data = d, m_size = m_size other\<rparr>, m)))
       (RawMemory_dtor d))"

text \<open>\<open>void Swap(Vector& other)\<close>: the new states of \<open>*this\<close> and of \<open>other\<close>.\<close>

definition Swap :: "Vector \<Rightarrow> Vector \<Rightarrow> Vector \<times> Vector" where
  "Swap this other =
     (case RawMemory_Swap (m_data this) (m_data other) of
        (d, od) \<Rightarrow> (\<lparr>m_data = d, m_size = m_size other\<rparr>, \<lparr>m_data = od, m_size = m_size this\<rparr>))"

text \<open>
  \<open>Vector(Vector&& other)\<close>: the members are default-initialized, then swapped with
  those of \<open>other\<close>. The result is the new object and the state in which \<open>other\<close> is left.
\<close>

definition Vector_move :: "Vector \<Rightarrow> Vector \<times> Vector" where
  "Vector_move other = Swap Vector_default other"

text \<open>\<open>~Vector()\<close> destroys the live elements; then the destructor of \<open>m_data\<close> runs.\<close>

definition Vector_dtor :: "Vector \<Rightarrow> 'a machine \<Rightarrow> (failure + unit) \<times> 'a machine" where
  "Vector_dtor this =
     bind (destroy_n (GetAddress (m_data this)) (m_size this)) (\<lambda>_.
     RawMemory_dtor (m_data this))"

subsection \<open>Relocation\<close>

definition InitializeDataUsingOtherData ::
  "'a env \<Rightarrow> ptr \<Rightarrow> ptr \<Rightarrow> nat \<Rightarrow> 'a machine \<Rightarrow> (failure + unit) \<times> 'a machine" where
  "InitializeDataUsingOtherData env start_from start_to count =
     (if is_nothrow_move_constructible env \<or> \<not> is_copy_constructible env
      then uninitialized_move_n env start_from count start_to
      else uninitialized_copy_n env start_from count start_to)"

text \<open>
  \<open>void Reserve(size_t new_capacity)\<close>. The local \<open>new_data\<close> is destroyed when the
  function is left: on the way out of a throwing relocation it still owns the new block,
  after \<open>m_data.Swap(new_data)\<close> it owns the old one.
\<close>

definition Reserve :: "'a env \<Rightarrow> nat \<Rightarrow> Vector \<Rightarrow> 'a machine \<Rightarrow> (failure + unit) \<times> Vector \<times> 'a machine" where
  "Reserve env new_capacity this =
     (if new_capacity \<le> RawMemory_Capacity (m_data this) then (\<lambda>m. (Inr (), this, m))
      else member this
        (bind (RawMemory_ctor env new_capacity) (\<lambda>new_data.
         bind (cleanup_rethrow
                 (InitializeDataUsingOtherData env (GetAddress (m_data this))
                    (GetAddress new_data) (m_size this))
                 (RawMemory_dtor new_data)) (\<lambda>_.
         bind (destroy_n (GetAddress (m_data this)) (m_size this)) (\<lambda>_.
         case RawMemory_Swap (m_data this) new_data of (d, new_data1) \<Rightarrow>
         bind (RawMemory_dtor new_data1) (\<lambda>_ m.
         (Inr ((), this\<lparr>m_data := d\<rparr>), m)))))))"

subsection \<open>Insertion\<close>

definition EmplaceWithRealloc ::
  "'a env \<Rightarrow> ptr \<Rightarrow> 'a ctor_args \<Rightarrow> Vector \<Rightarrow> 'a machine \<Rightarrow> (failure + ptr \<times> Vector) \<times> 'a machine"
where
  "EmplaceWithRealloc env pos args this =
     (let pos_index = ptr_diff pos (Vector_begin this) in
      bind (RawMemory_ctor env
              (if m_size this = 0 then 1 else m_size this * 2 mod size_t_range)) (\<lambda>new_data.
      cleanup_rethrow
        (bind (RawMemory_plus new_data pos_index) (\<lambda>p.
         bind (T_construct env args p) (\<lambda>_.
         bind (cleanup_rethrow
                 (InitializeDataUsingOtherData env (GetAddress (m_data this))
                    (GetAddress new_data) pos_index)
                 (bind (RawMemory_index new_data pos_index) destroy_at)) (\<lambda>_.
         bind (cleanup_rethrow
                 (bind (RawMemory_plus (m_data this) pos_index) (\<lambda>from.
                  bind (RawMemory_plus new_data pos_index) (\<lambda>to.
                  InitializeDataUsingOtherData env from (ptr_add to 1)
                    (m_size this - pos_index))))
                 (destroy_n (GetAddress new_data) (pos_index + 1))) (\<lambda>_.
         bind (destroy_n (GetAddress (m_data this)) (m_size this)) (\<lambda>_.
         case RawMemory_Swap (m_data this) new_data of (d, new_data1) \<Rightarrow>
         bind (RawMemory_plus d pos_index) (\<lambda>r.
         bind (RawMemory_dtor new_data1) (\<lambda>_ m.
         (Inr (r, \<lparr>m_data = d, m_size = (m_size this + 1) mod size_t_range\<rparr>), m)))))))))
        (RawMemory_dtor new_data)))"

text \<open>
  \<open>EmplaceWithoutRealloc\<close> is private and called by \<open>Emplace\<close> only, after the assertion
  that \<open>pos\<close> lies in \<open>[begin(), end()]\<close>; where \<open>pos\<close> is not \<open>cend()\<close> the vector has an
  element and \<open>m_size - 1\<close> does not wrap.
\<close>

definition EmplaceWithoutRealloc ::
  "'a env \<Rightarrow> ptr \<Rightarrow> 'a ctor_args \<Rightarrow> Vector \<Rightarrow> 'a machine \<Rightarrow> (failure + ptr \<times> Vector) \<times> 'a machine"
where
  "EmplaceWithoutRealloc env pos args this =
     (let pos_index = ptr_diff pos (Vector_begin this) in
      bind (Vector_end this) (\<lambda>e.
      bind (if pos = e
            then bind (RawMemory_plus (m_data this) (m_size this)) (\<lambda>p.
                 T_construct env args p)
            else bind (T_make env args) (\<lambda>temp.
                 bind (RawMemory_plus (m_data this) (m_size this)) (\<lambda>p.
                 bind (RawMemory_index (m_data this) (m_size this - 1)) (\<lambda>back.
                 bind (T_move_construct env back p) (\<lambda>_.
                 bind (RawMemory_plus (m_data this) pos_index) (\<lambda>first.
                 bind (RawMemory_plus (m_data this) (m_size this - 1)) (\<lambda>lst.
                 bind (RawMemory_plus (m_data this) (m_size this)) (\<lambda>d_last.
                 bind (std_move_backward env first lst d_last) (\<lambda>_.
                 bind (RawMemory_index (m_data this) pos_index) (\<lambda>q.
                 T_move_assign_from_local env temp q)))))))))) (\<lambda>_.
      bind (RawMemory_plus (m_data this) pos_index) (\<lambda>r m.
      (Inr (r, this\<lparr>m_size := (m_size this + 1) mod size_t_range\<rparr>), m)))))"

definition Emplace ::
  "'a env \<Rightarrow> ptr \<Rightarrow> 'a ctor_args \<Rightarrow> Vector \<Rightarrow> 'a machine \<Rightarrow> (failure + ptr) \<times> Vector \<times> 'a machine"
where
  "Emplace env pos args this =
     member this
       (bind (ptr_le (Vector_begin this) pos) (\<lambda>ge.
        bind (Vector_end this) (\<lambda>e.
        bind (ptr_le pos e) (\<lambda>le.
        bind (assert (ge \<and> le)) (\<lambda>_.
        if m_size this = Capacity this
        then EmplaceWithRealloc env pos args this
        else EmplaceWithoutRealloc env pos args this)))))"

definition Insert ::
  "'a env \<Rightarrow> ptr \<Rightarrow> 'a ctor_args \<Rightarrow> Vector \<Rightarrow> 'a machine \<Rightarrow> (failure + ptr) \<times> Vector \<times> 'a machine"
where
  "Insert env pos value = Emplace env pos value"

text \<open>
  \<open>T& EmplaceBack(Args&&... args)\<close> returns \<open>*Emplace(cend(), args...)\<close>; the reference
  is the pointer that \<open>Emplace\<close> returns.
\<close>

definition EmplaceBack ::
  "'a env \<Rightarrow> 'a ctor_args \<Rightarrow> Vector \<Rightarrow> 'a machine \<Rightarrow> (failure + ptr) \<times> Vector \<times> 'a machine"
where
  "EmplaceBack env args this m =
     (case Vector_end this m of
        (Inl f, m1) \<Rightarrow> (Inl f, this, m1)
      | (Inr e, m1) \<Rightarrow> Emplace env e args this m1)"

definition PushBack ::
  "'a env \<Rightarrow> 'a ctor_args \<Rightarrow> Vector \<Rightarrow> 'a machine \<Rightarrow> (failure + unit) \<times> Vector \<times> 'a machine"
where
  "PushBack env value this m =
     (case EmplaceBack env value this m of
        (Inl f, this1, m1) \<Rightarrow> (Inl f, this1, m1)
      | (Inr _, this1, m1) \<Rightarrow> (Inr (), this1, m1))"

subsection \<open>Removal and resizing\<close>

definition PopBack :: "Vector \<Rightarrow> 'a machine \<Rightarrow> (failure + unit) \<times> Vector \<times> 'a machine" where
  "PopBack this =
     member this
       (bind (assert (m_size this \<noteq> 0)) (\<lambda>_.
        bind (RawMemory_index (m_data this) (m_size this - 1)) (\<lambda>p.
        bind (destroy_at p) (\<lambda>_ m.
        (Inr ((), this\<lparr>m_size := m_size this - 1\<rparr>), m)))))"

definition Erase :: "'a env \<Rightarrow> ptr \<Rightarrow> Vector \<Rightarrow> 'a machine \<Rightarrow> (failure + ptr) \<times> Vector \<times> 'a machine" where
  "Erase env pos this m =
     (case
        (bind (ptr_le (Vector_begin this) pos) (\<lambda>ge.
         bind (Vector_end this) (\<lambda>e.
         bind (ptr_less pos e) (\<lambda>lt.
         bind (assert (ge \<and> lt)) (\<lambda>_.
         bind (RawMemory_plus (m_data this) (ptr_diff pos (Vector_begin this))) (\<lambda>p.
         bind (Vector_end this) (\<lambda>e1.
         bind (RawMemory_plus (m_data this) (ptr_diff pos (Vector_begin this))) (\<lambda>d.
         std_move env (ptr_add p 1) e1 d)))))))) m
      of
        (Inl f, m1) \<Rightarrow> (Inl f, this, m1)
      | (Inr _, m1) \<Rightarrow>
          (case PopBack this m1 of
             (Inl f, this2, m2) \<Rightarrow> (Inl f, this2, m2)
           | (Inr _, this2, m2) \<Rightarrow>
               (case RawMemory_plus (m_data this2) (ptr_diff pos (Vector_begin this)) m2 of
                  (Inl f, m3) \<Rightarrow> (Inl f, this2, m3)
                | (Inr r, m3) \<Rightarrow> (Inr r, this2, m3))))"

definition Resize :: "'a env \<Rightarrow> nat \<Rightarrow> Vector \<Rightarrow> 'a machine \<Rightarrow> (failure + unit) \<times> Vector \<times> 'a machine" where
  "Resize env new_size this m =
     (if new_size < m_size this
      then member this
             (bind (RawMemory_plus (m_data this) new_size) (\<lambda>p.
              bind (destroy_n p (m_size this - new_size)) (\<lambda>_ m1.
              (Inr ((), this\<lparr>m_size := new_size\<rparr>), m1)))) m
      else (case Reserve env new_size this m of
              (Inl f, this1, m1) \<Rightarrow> (Inl f, this1, m1)
            | (Inr _, this1, m1) \<Rightarrow>
                member this1
                  (bind (RawMemory_plus (m_data this1) (m_size this1)) (\<lambda>p.
                   bind (uninitialized_value_construct_n env p (new_size - m_size this1)) (\<lambda>_ m2.
                   (Inr ((), this1\<lparr>m_size := new_size\<rparr>), m2)))) m1))"

subsection \<open>Assignment\<close>

text \<open>
  The body of \<open>Vector& operator=(const Vector& rhs)\<close> for \<open>this != &rhs\<close>. In the first
  branch the local \<open>rhs_copy\<close> is destroyed at the end of its block, with what was in
  \<open>*this\<close>.
\<close>

definition copy_assign_body ::
  "'a env \<Rightarrow> Vector \<Rightarrow> Vector \<Rightarrow> 'a machine \<Rightarrow> (failure + unit) \<times> Vector \<times> 'a machine" where
  "copy_assign_body env rhs this =
     (if m_size rhs > RawMemory_Capacity (m_data this)
      then member this
             (bind (Vector_copy env rhs) (\<lambda>rhs_copy.
              case Swap this rhs_copy of (this1, rhs_copy1) \<Rightarrow>
              bind (Vector_dtor rhs_copy1) (\<lambda>_ m.
              (Inr ((), this1\<lparr>m_size := m_size rhs\<rparr>), m))))
      else member this
             (bind (RawMemory_plus (m_data rhs) (min (m_size rhs) (m_size this))) (\<lambda>lst.
              bind (std_copy env (GetAddress (m_data rhs)) lst (GetAddress (m_data this))) (\<lambda>_.
              bind (if m_size this > m_size rhs
                    then bind (RawMemory_plus (m_data this) (m_size rhs)) (\<lambda>p.
                         destroy_n p (m_size this - m_size rhs))
                    else bind (RawMemory_plus (m_data rhs) (m_size this)) (\<lambda>from.
                         bind (RawMemory_plus (m_data this) (m_size this)) (\<lambda>to.
                         uninitialized_copy_n env from (m_size rhs - m_size this) to))) (\<lambda>_ m.
              (Inr ((), this\<lparr>m_size := m_size rhs\<rparr>), m))))))"

section \<open>Programs over several vectors\<close>

text \<open>
  The assignment operators compare the addresses of their operands, and a caller may pass
  the same object twice; so the vectors of a program live in a store, from object
  identities to fields. An identity with no entry is not (or no longer) a \<open>Vector\<close>.
\<close>

record 'a world =
  vecs :: "nat \<Rightarrow> Vector option"
  mach :: "'a machine"

datatype 'a call =
    Construct nat
  | ConstructSized nat nat
  | ConstructCopy nat nat
  | ConstructMove nat nat
  | Destroy nat
  | AssignCopy nat nat
  | AssignMove nat nat
  | CallSwap nat nat
  | CallPushBack nat "'a ctor_args"
  | CallEmplaceBack nat "'a ctor_args"
  | CallPopBack nat
  | CallResize nat nat
  | CallReserve nat nat
  | CallEmplace nat ptr "'a ctor_args"
  | CallInsert nat ptr "'a ctor_args"
  | CallErase nat ptr

text \<open>A constructor call: the object exists afterwards iff the constructor returned.\<close>

definition construct ::
  "nat \<Rightarrow> ('a machine \<Rightarrow> (failure + Vector) \<times> 'a machine) \<Rightarrow> 'a world \<Rightarrow> (failure + unit) \<times> 'a world"
where
  "construct this ctor w =
     (case vecs w this of
        Some _ \<Rightarrow> (Inl Undefined, w)
      | None \<Rightarrow>
          (case ctor (mach w) of
             (Inl f, m1) \<Rightarrow> (Inl f, w\<lparr>mach := m1\<rparr>)
           | (Inr v, m1) \<Rightarrow> (Inr (), w\<lparr>vecs := (vecs w)(this \<mapsto> v), mach := m1\<rparr>)))"

text \<open>A call of a member function on the object \<open>this\<close>; the result is dropped.\<close>

definition call_member ::
  "nat \<Rightarrow> (Vector \<Rightarrow> 'a machine \<Rightarrow> (failure + 'r) \<times> Vector \<times> 'a machine) \<Rightarrow> 'a world
   \<Rightarrow> (failure + unit) \<times> 'a world"
where
  "call_member this f w =
     (case vecs w this of
        None \<Rightarrow> (Inl Undefined, w)
      | Some v \<Rightarrow>
          (case f v (mach w) of
             (Inl e, v1, m1) \<Rightarrow> (Inl e, w\<lparr>vecs := (vecs w)(this \<mapsto> v1), mach := m1\<rparr>)
           | (Inr _, v1, m1) \<Rightarrow> (Inr (), w\<lparr>vecs := (vecs w)(this \<mapsto> v1), mach := m1\<rparr>)))"

text \<open>\<open>Vector& operator=(const Vector& rhs)\<close>\<close>

definition Vector_copy_assign :: "'a env \<Rightarrow> nat \<Rightarrow> nat \<Rightarrow> 'a world \<Rightarrow> (failure + unit) \<times> 'a world" where
  "Vector_copy_assign env this rhs w =
     (if this \<noteq> rhs
      then (case vecs w rhs of
              None \<Rightarrow> (Inl Undefined, w)
            | Some r \<Rightarrow> call_member this (copy_assign_body env r) w)
      else (case vecs w this of None \<Rightarrow> (Inl Undefined, w) | Some _ \<Rightarrow> (Inr (), w)))"

text \<open>\<open>Vector& operator=(Vector&& rhs)\<close> and a call of \<open>Swap\<close> on two objects of the store.\<close>

definition swap_objects :: "nat \<Rightarrow> nat \<Rightarrow> 'a world \<Rightarrow> (failure + unit) \<times> 'a world" where
  "swap_objects this other w =
     (case (vecs w this, vecs w other) of
        (Some a, Some b) \<Rightarrow>
          (case Swap a b of
             (a1, b1) \<Rightarrow> (Inr (), w\<lparr>vecs := (vecs w)(this \<mapsto> a1, other \<mapsto> b1)\<rparr>))
      | _ \<Rightarrow> (Inl Undefined, w))"

definition Vector_move_assign :: "nat \<Rightarrow> nat \<Rightarrow> 'a world \<Rightarrow> (failure + unit) \<times> 'a world" where
  "Vector_move_assign this rhs w =
     (if this \<noteq> rhs then swap_objects this rhs w
      else (case vecs w this of None \<Rightarrow> (Inl Undefined, w) | Some _ \<Rightarrow> (Inr (), w)))"

definition Vector_move_construct :: "nat \<Rightarrow> nat \<Rightarrow> 'a world \<Rightarrow> (failure + unit) \<times> 'a world" where
  "Vector_move_construct this other w =
     (case (vecs w this, vecs w other) of
        (None, Some b) \<Rightarrow>
          (case Vector_move b of
             (a1, b1) \<Rightarrow> (Inr (), w\<lparr>vecs := (vecs w)(this \<mapsto> a1, other \<mapsto> b1)\<rparr>))
      | _ \<Rightarrow> (Inl Undefined, w))"

definition Vector_destroy :: "nat \<Rightarrow> 'a world \<Rightarrow> (failure + unit) \<times> 'a world" where
  "Vector_destroy this w =
     (case vecs w this of
        None \<Rightarrow> (Inl Undefined, w)
      | Some v \<Rightarrow>
          (case Vector_dtor v (mach w) of
             (r, m1) \<Rightarrow> (r, w\<lparr>vecs := (vecs w)(this := None), mach := m1\<rparr>)))"

fun exec :: "'a env \<Rightarrow> 'a call \<Rightarrow> 'a world \<Rightarrow> (failure + unit) \<times> 'a world" where
  "exec env (Construct this) w = construct this (\<lambda>m. (Inr Vector_default, m)) w"
| "exec env (ConstructSized this n) w = construct this (Vector_sized env n) w"
| "exec env (ConstructCopy this other) w =
     (case vecs w other of
        None \<Rightarrow> (Inl Undefined, w)
      | Some v \<Rightarrow> construct this (Vector_copy env v) w)"
| "exec env (ConstructMove this other) w = Vector_move_construct this other w"
| "exec env (Destroy this) w = Vector_destroy this w"
| "exec env (AssignCopy this rhs) w = Vector_copy_assign env this rhs w"
| "exec env (AssignMove this rhs) w = Vector_move_assign this rhs w"
| "exec env (CallSwap this other) w = swap_objects this other w"
| "exec env (CallPushBack this x) w = call_member this (PushBack env x) w"
| "exec env (CallEmplaceBack this x) w = call_member this (EmplaceBack env x) w"
| "exec env (CallPopBack this) w = call_member this PopBack w"
| "exec env (CallResize this n) w = call_member this (Resize env n) w"
| "exec env (CallReserve this n) w = call_member this (Reserve env n) w"
| "exec env (CallEmplace this pos x) w = call_member this (Emplace env pos x) w"
| "exec env (CallInsert this pos x) w = call_member this (Insert env pos x) w"
| "exec env (CallErase this pos) w = call_member this (Erase env pos) w"

text \<open>
  A program is a list of calls. A caller can catch an exception and go on; after a failed
  assertion or undefined behaviour nothing more runs.
\<close>

fun run :: "'a env \<Rightarrow> 'a call list \<Rightarrow> 'a world \<Rightarrow> 'a world" where
  "run env [] w = w"
| "run env (c # cs) w =
     (case exec env c w of
        (Inr _, w1) \<Rightarrow> run env cs w1
      | (Inl (Exception _), w1) \<Rightarrow> run env cs w1
      | (Inl _, w1) \<Rightarrow> w1)"

definition start :: "'a world" where
  "start = \<lparr>vecs = (\<lambda>_. None), mach = \<lparr>heap = (\<lambda>_. None), brk = 0, clock = 0\<rparr>\<rparr>"

section \<open>Frames and invariants\<close>

definition same_shape :: "'a machine \<Rightarrow> 'a machine \<Rightarrow> bool" where
  "same_shape m m' \<longleftrightarrow>
     brk m' = brk m \<and> (\<forall>a. map_option length (heap m' a) = map_option length (heap m a))"

definition unchanged_off :: "addr option set \<Rightarrow> 'a machine \<Rightarrow> 'a machine \<Rightarrow> bool" where
  "unchanged_off S m m' \<longleftrightarrow> (\<forall>a. Some a \<notin> S \<longrightarrow> heap m' a = heap m a)"

definition keeps :: "addr option set \<Rightarrow> ('a machine \<Rightarrow> (failure + 'r) \<times> 'a machine) \<Rightarrow> bool" where
  "keeps S act \<longleftrightarrow> (\<forall>m r m'. act m = (r, m') \<longrightarrow> same_shape m m' \<and> unchanged_off S m m')"

definition block_of :: "'a machine \<Rightarrow> addr option \<Rightarrow> 'a option list" where
  "block_of m b = (case b of None \<Rightarrow> [] | Some a \<Rightarrow> (case heap m a of None \<Rightarrow> [] | Some blk \<Rightarrow> blk))"

definition elements :: "Vector \<Rightarrow> 'a machine \<Rightarrow> 'a list" where
  "elements this m = map the (take (m_size this) (block_of m (m_buffer (m_data this))))"

definition valid :: "'a env \<Rightarrow> Vector \<Rightarrow> 'a machine \<Rightarrow> bool" where
  "valid env this m \<longleftrightarrow>
     0 < sizeof_T env \<and>
     m_size this \<le> m_capacity (m_data this) \<and>
     m_capacity (m_data this) * sizeof_T env < size_t_range \<and>
     (\<forall>a. brk m \<le> a \<longrightarrow> heap m a = None) \<and>
     (case m_buffer (m_data this) of
        None \<Rightarrow> m_capacity (m_data this) = 0
      | Some a \<Rightarrow>
          (case heap m a of
             None \<Rightarrow> False
           | Some blk \<Rightarrow>
               length blk = m_capacity (m_data this) \<and>
               list_all (\<lambda>s. s \<noteq> None) (take (m_size this) blk)))"

definition no_throw :: "('a machine \<Rightarrow> (failure + 'r) \<times> 'a machine) \<Rightarrow> bool" where
  "no_throw act \<longleftrightarrow> (\<forall>m e m'. act m \<noteq> (Inl (Exception e), m'))"

definition throw_keeps :: "addr option set \<Rightarrow> ('a machine \<Rightarrow> (failure + 'r) \<times> 'a machine) \<Rightarrow> bool" where
  "throw_keeps S act \<longleftrightarrow>
     (\<forall>m e m'. act m = (Inl (Exception e), m') \<longrightarrow> same_shape m m' \<and> unchanged_off S m m')"

text \<open>
  What the constructor of a new element does with its arguments: the value that it
  builds, read from the heap when the argument is an object there, and the machine in
  which that object has been left moved-from.
\<close>

definition argument_value :: "'a ctor_args \<Rightarrow> 'a machine \<Rightarrow> 'a option" where
  "argument_value args m =
     (case args of
        MoveFrom p \<Rightarrow> (case slot_of m p of Some (Some x) \<Rightarrow> Some x | _ \<Rightarrow> None)
      | _ \<Rightarrow> given args)"

definition moved_out :: "'a env \<Rightarrow> 'a ctor_args \<Rightarrow> 'a machine \<Rightarrow> 'a machine" where
  "moved_out env args m =
     (case args of
        MoveFrom p \<Rightarrow>
          (case slot_of m p of
             Some (Some x) \<Rightarrow> poke p (Some (moved_from env x)) m
           | _ \<Rightarrow> m)
      | _ \<Rightarrow> m)"

text \<open>
  A caller that starts from a vector and appends the values of a list one at a time with
  \<open>PushBack\<close>, stopping at the first call that does not return.
\<close>

fun PushBack_each ::
  "'a env \<Rightarrow> 'a ctor_args list \<Rightarrow> Vector \<Rightarrow> 'a machine \<Rightarrow> (failure + unit) \<times> Vector \<times> 'a machine"
where
  "PushBack_each env [] this m = (Inr (), this, m)"
| "PushBack_each env (v # vs) this m =
     (case PushBack env v this m of
        (Inl f, this1, m1) \<Rightarrow> (Inl f, this1, m1)
      | (Inr _, this1, m1) \<Rightarrow> PushBack_each env vs this1 m1)"

text \<open>
  The capacities that appending reaches from an empty vector: \<open>0\<close> before the first
  element, then the least power of two that holds the elements; \<open>brk\<close> counts the blocks
  allocated since \<open>base\<close>.
\<close>

definition doubled :: "nat \<Rightarrow> Vector \<Rightarrow> 'a machine \<Rightarrow> bool" where
  "doubled base this m \<longleftrightarrow>
     m_size this = 0 \<and> m_capacity (m_data this) = 0 \<and> brk m = base
     \<or> (\<exists>k. m_capacity (m_data this) = 2 ^ k \<and> m_size this \<le> 2 ^ k
            \<and> 2 ^ k < 2 * m_size this \<and> brk m = base + (k + 1))"

text \<open>
  What an action returns, when it returns; and the bound of the size of a vector by its
  capacity, for one vector and for every vector of a store.
\<close>

definition yields :: "('s \<Rightarrow> (failure + 'r) \<times> 's) \<Rightarrow> ('r \<Rightarrow> bool) \<Rightarrow> bool" where
  "yields act Q \<longleftrightarrow> (\<forall>s r s'. act s = (Inr r, s') \<longrightarrow> Q r)"

definition within_capacity :: "Vector \<Rightarrow> bool" where
  "within_capacity v \<longleftrightarrow> m_size v \<le> m_capacity (m_data v)"

definition all_within :: "'a world \<Rightarrow> bool" where
  "all_within w \<longleftrightarrow> (\<forall>i v. vecs w i = Some v \<longrightarrow> within_capacity v)"

section \<open>Example element types and states\<close>

text \<open>
  A vector of two elements \<open>7, 8\<close> that fills its block, and two element types whose
  third step that may throw does throw: one that can only be moved and whose move
  constructor may throw (a moved-from object holds \<open>0\<close>), and one that is copied when
  relocated.
\<close>

definition two_elements :: "nat machine" where
  "two_elements = \<lparr>heap = (\<lambda>_. None)(0 \<mapsto> [Some 7, Some 8]), brk = 1, clock = 0\<rparr>"

definition full_vector :: Vector where
  "full_vector = \<lparr>m_data = \<lparr>m_buffer = Some 0, m_capacity = 2\<rparr>, m_size = 2\<rparr>"

definition move_only_env :: "nat env" where
  "move_only_env = \<lparr>sizeof_T = 8, is_nothrow_move_constructible = False,
     is_copy_constructible = False, value_initialized = 0, moved_from = (\<lambda>_. 0),
     fails_at = (\<lambda>k. k = 2)\<rparr>"

definition copying_env :: "nat env" where
  "copying_env = \<lparr>sizeof_T = 8, is_nothrow_move_constructible = False,
     is_copy_constructible = True, value_initialized = 0, moved_from = (\<lambda>_. 0),
     fails_at = (\<lambda>k. k = 2)\<rparr>"

text \<open>Two vectors in a store: object 0 holds \<open>7, 8\<close>, object 1 holds \<open>9\<close> in a block of four.\<close>

definition two_vectors :: "nat world" where
  "two_vectors = \<lparr>vecs = (\<lambda>_. None)
       (0 \<mapsto> \<lparr>m_data = \<lparr>m_buffer = Some 0, m_capacity = 2\<rparr>, m_size = 2\<rparr>,
        1 \<mapsto> \<lparr>m_data = \<lparr>m_buffer = Some 1, m_capacity = 4\<rparr>, m_size = 1\<rparr>),
     mach = \<lparr>heap = (\<lambda>_. None)(0 \<mapsto> [Some 7, Some 8], 1 \<mapsto> [Some 9, None, None, None]),
       brk = 2, clock = 0\<rparr>\<rparr>"

text \<open>
  An element type like \<open>int\<close>, and one that is copied when relocated, neither of which
  ever throws; a machine with a second block of raw storage.
\<close>

definition int_env :: "nat env" where
  "int_env = \<lparr>sizeof_T = 4, is_nothrow_move_constructible = True,
     is_copy_constructible = True, value_initialized = 0, moved_from = (\<lambda>x. x),
     fails_at = (\<lambda>_. False)\<rparr>"

definition careful_env :: "nat env" where
  "careful_env = \<lparr>sizeof_T = 8, is_nothrow_move_constructible = False,
     is_copy_constructible = True, value_initialized = 0, moved_from = (\<lambda>_. 0),
     fails_at = (\<lambda>_. False)\<rparr>"

definition two_blocks :: "nat machine" where
  "two_blocks = \<lparr>heap = (\<lambda>_. None)(0 \<mapsto> [Some 7, Some 8], 1 \<mapsto> [None, None, None]),
     brk = 2, clock = 0\<rparr>"

section \<open>Evaluation of concrete runs\<close>

text \<open>
  The equations with which the simplifier runs the model on concrete states: the loops
  at a numeral count, and the definitions of the model.
\<close>

lemma destroy_n_numeral:
  "destroy_n p (numeral k) = destroy_n p (Suc (pred_numeral k))"
  by (simp add: numeral_eq_Suc)
lemma uninitialized_value_construct_n_numeral:
  "uninitialized_value_construct_n env p (numeral k) = uninitialized_value_construct_n env p (Suc (pred_numeral k))"
  by (simp add: numeral_eq_Suc)
lemma uninitialized_copy_n_numeral:
  "uninitialized_copy_n env src (numeral k) dst = uninitialized_copy_n env src (Suc (pred_numeral k)) dst"
  by (simp add: numeral_eq_Suc)
lemma uninitialized_move_n_numeral:
  "uninitialized_move_n env src (numeral k) dst = uninitialized_move_n env src (Suc (pred_numeral k)) dst"
  by (simp add: numeral_eq_Suc)
lemma copy_loop_numeral:
  "copy_loop env src (numeral k) dst = copy_loop env src (Suc (pred_numeral k)) dst"
  by (simp add: numeral_eq_Suc)
lemma move_loop_numeral:
  "move_loop env src (numeral k) dst = move_loop env src (Suc (pred_numeral k)) dst"
  by (simp add: numeral_eq_Suc)
lemma move_backward_loop_numeral:
  "move_backward_loop env src (numeral k) dst = move_backward_loop env src (Suc (pred_numeral k)) dst"
  by (simp add: numeral_eq_Suc)

lemmas loop_numerals = destroy_n_numeral uninitialized_value_construct_n_numeral
  uninitialized_copy_n_numeral uninitialized_move_n_numeral copy_loop_numeral move_loop_numeral
  move_backward_loop_numeral

lemmas model_defs = size_t_range_def bind_def cleanup_rethrow_def assert_def may_throw_def
  ptr_add_def slot_of_def poke_def construct_at_def destroy_at_def load_def set_value_def
  move_ctor_may_throw_def T_construct_def T_value_construct_def T_copy_construct_def T_move_construct_def
  T_copy_assign_def T_move_assign_def T_move_assign_from_local_def
  std_copy_def std_move_def std_move_backward_def
  operator_new_def operator_delete_def Allocate_def Deallocate_def RawMemory_default_def
  RawMemory_ctor_def RawMemory_move_ctor_def RawMemory_Swap_def RawMemory_move_assign_def
  RawMemory_dtor_def RawMemory_plus_def RawMemory_index_def GetAddress_def
  RawMemory_Capacity_def member_def Size_def Capacity_def Vector_begin_def Vector_end_def
  ptr_le_def ptr_less_def ptr_diff_def Vector_default_def Vector_sized_def Vector_copy_def
  Swap_def Vector_move_def Vector_dtor_def InitializeDataUsingOtherData_def Reserve_def
  EmplaceWithRealloc_def EmplaceWithoutRealloc_def Emplace_def Insert_def EmplaceBack_def
  PushBack_def PopBack_def Erase_def Resize_def copy_assign_body_def
  construct_def call_member_def Vector_copy_assign_def swap_objects_def Vector_move_assign_def
  Vector_move_construct_def Vector_destroy_def start_def
  block_of_def elements_def loop_numerals

section \<open>Basic facts\<close>

lemma bind_Inr_iff:
  "bind f g s = (Inr y, s') \<longleftrightarrow> (\<exists>x s1. f s = (Inr x, s1) \<and> g x s1 = (Inr y, s'))"
  by (auto simp: bind_def split: prod.splits sum.splits)

lemma bind_Inl_iff:
  "bind f g s = (Inl e, s') \<longleftrightarrow>
     f s = (Inl e, s') \<or> (\<exists>x s1. f s = (Inr x, s1) \<and> g x s1 = (Inl e, s'))"
  by (auto simp: bind_def split: prod.splits sum.splits)

lemma cleanup_rethrow_Inr_iff:
  "cleanup_rethrow body handler s = (Inr y, s') \<longleftrightarrow> body s = (Inr y, s')"
  by (auto simp: cleanup_rethrow_def split: prod.splits sum.splits failure.splits)

lemma cleanup_rethrow_Exception_iff:
  "cleanup_rethrow body handler s = (Inl (Exception e), s') \<longleftrightarrow>
     (\<exists>s1 u. body s = (Inl (Exception e), s1) \<and> handler s1 = (Inr u, s'))
     \<or> (\<exists>e1 s1. body s = (Inl (Exception e1), s1) \<and> handler s1 = (Inl (Exception e), s'))"
  by (auto simp: cleanup_rethrow_def split: prod.splits sum.splits failure.splits)

lemma assert_Inr_iff: "assert b s = (Inr u, s') \<longleftrightarrow> b \<and> s' = s"
  by (auto simp: assert_def)

lemma assert_Inl_iff: "assert b s = (Inl f, s') \<longleftrightarrow> \<not> b \<and> f = AssertionFailed \<and> s' = s"
  by (auto simp: assert_def)

lemma RawMemory_Swap_eq: "RawMemory_Swap a b = (b, a)"
  by (simp add: RawMemory_Swap_def)

lemma Swap_eq: "Swap a b = (b, a)"
  by (simp add: Swap_def RawMemory_Swap_eq)

lemma same_shape_refl [simp]: "same_shape m m"
  by (simp add: same_shape_def)

lemma same_shape_trans: "same_shape m m1 \<Longrightarrow> same_shape m1 m2 \<Longrightarrow> same_shape m m2"
  by (simp add: same_shape_def)

lemma unchanged_off_refl [simp]: "unchanged_off S m m"
  by (simp add: unchanged_off_def)

lemma unchanged_off_trans:
  "unchanged_off S m m1 \<Longrightarrow> unchanged_off S m1 m2 \<Longrightarrow> unchanged_off S m m2"
  by (simp add: unchanged_off_def)

lemma unchanged_off_mono: "unchanged_off S m m1 \<Longrightarrow> S \<subseteq> S' \<Longrightarrow> unchanged_off S' m m1"
  by (auto simp: unchanged_off_def)

lemma same_shape_clock [simp]: "same_shape m (m\<lparr>clock := c\<rparr>)"
  by (simp add: same_shape_def)

lemma unchanged_off_clock [simp]: "unchanged_off S m (m\<lparr>clock := c\<rparr>)"
  by (simp add: unchanged_off_def)

lemma same_shape_poke [simp]: "same_shape m (poke p s m)"
  by (auto simp: same_shape_def poke_def split: option.splits)

lemma unchanged_off_poke: "fst p \<in> S \<Longrightarrow> unchanged_off S m (poke p s m)"
  by (auto simp: unchanged_off_def poke_def split: option.splits)

lemma may_throw_cases:
  "may_throw env e m = (r, m') \<Longrightarrow>
     m' = m\<lparr>clock := Suc (clock m)\<rparr> \<and> (r = Inr () \<or> r = Inl (Exception e))"
  by (auto simp: may_throw_def split: if_splits)

lemma construct_at_Inr_iff:
  "construct_at p x m = (Inr u, m') \<longleftrightarrow>
     (\<exists>a blk. fst p = Some a \<and> heap m a = Some blk \<and> snd p < length blk
        \<and> m' = m\<lparr>heap := (heap m)(a \<mapsto> blk[snd p := Some x])\<rparr>)"
  by (auto simp: construct_at_def slot_of_def poke_def split: option.splits if_splits)

lemma destroy_at_Inr_iff:
  "destroy_at p m = (Inr u, m') \<longleftrightarrow>
     (\<exists>a blk. fst p = Some a \<and> heap m a = Some blk \<and> snd p < length blk \<and> blk ! snd p \<noteq> None
        \<and> m' = m\<lparr>heap := (heap m)(a \<mapsto> blk[snd p := None])\<rparr>)"
  by (auto simp: destroy_at_def slot_of_def poke_def split: option.splits if_splits)

lemma set_value_Inr_iff:
  "set_value p x m = (Inr u, m') \<longleftrightarrow>
     (\<exists>a blk. fst p = Some a \<and> heap m a = Some blk \<and> snd p < length blk \<and> blk ! snd p \<noteq> None
        \<and> m' = m\<lparr>heap := (heap m)(a \<mapsto> blk[snd p := Some x])\<rparr>)"
  by (auto simp: set_value_def slot_of_def poke_def split: option.splits if_splits)

lemma load_Inr_iff:
  "load p m = (Inr x, m') \<longleftrightarrow>
     (\<exists>a blk. fst p = Some a \<and> heap m a = Some blk \<and> snd p < length blk \<and> blk ! snd p = Some x
        \<and> m' = m)"
  by (auto simp: load_def slot_of_def split: option.splits if_splits)

lemma construct_at_Inl: "construct_at p x m = (Inl f, m') \<Longrightarrow> f = Undefined \<and> m' = m"
  by (auto simp: construct_at_def split: option.splits)

lemma destroy_at_Inl: "destroy_at p m = (Inl f, m') \<Longrightarrow> f = Undefined \<and> m' = m"
  by (auto simp: destroy_at_def split: option.splits)

lemma set_value_Inl: "set_value p x m = (Inl f, m') \<Longrightarrow> f = Undefined \<and> m' = m"
  by (auto simp: set_value_def split: option.splits)

lemma load_Inl: "load p m = (Inl f, m') \<Longrightarrow> f = Undefined \<and> m' = m"
  by (auto simp: load_def split: option.splits)

lemma construct_at_frame:
  "construct_at p x m = (r, m') \<Longrightarrow> same_shape m m' \<and> unchanged_off {fst p} m m' \<and> clock m' = clock m"
  by (auto simp: construct_at_def poke_def unchanged_off_def same_shape_def split: option.splits)

lemma destroy_at_frame:
  "destroy_at p m = (r, m') \<Longrightarrow> same_shape m m' \<and> unchanged_off {fst p} m m' \<and> clock m' = clock m"
  by (auto simp: destroy_at_def poke_def unchanged_off_def same_shape_def split: option.splits)

lemma set_value_frame:
  "set_value p x m = (r, m') \<Longrightarrow> same_shape m m' \<and> unchanged_off {fst p} m m' \<and> clock m' = clock m"
  by (auto simp: set_value_def poke_def unchanged_off_def same_shape_def split: option.splits)

lemma load_frame: "load p m = (r, m') \<Longrightarrow> m' = m"
  by (auto simp: load_def split: option.splits)

lemma destroy_at_no_exn: "destroy_at p m \<noteq> (Inl (Exception e), m')"
  by (auto simp: destroy_at_def split: option.splits)

lemma keepsD: "keeps S act \<Longrightarrow> act m = (r, m') \<Longrightarrow> same_shape m m' \<and> unchanged_off S m m'"
  by (simp add: keeps_def)

lemma keeps_mono: "keeps S act \<Longrightarrow> S \<subseteq> S' \<Longrightarrow> keeps S' act"
  by (auto simp: keeps_def intro: unchanged_off_mono)

lemma keeps_return [simp]: "keeps S (\<lambda>m. (r, m))"
  by (simp add: keeps_def)

lemma keeps_bind:
  assumes f: "keeps S f" and g: "\<And>x. keeps S (g x)"
  shows "keeps S (bind f g)"
  unfolding keeps_def
proof (intro allI impI)
  fix m r m'
  assume run: "bind f g m = (r, m')"
  obtain r1 m1 where f1: "f m = (r1, m1)" by (cases "f m")
  have s1: "same_shape m m1 \<and> unchanged_off S m m1" using keepsD [OF f f1] .
  show "same_shape m m' \<and> unchanged_off S m m'"
  proof (cases r1)
    case (Inl e)
    with run f1 have "m' = m1" by (simp add: bind_def)
    with s1 show ?thesis by simp
  next
    case (Inr x)
    with run f1 have "g x m1 = (r, m')" by (simp add: bind_def)
    from keepsD [OF g this] s1 show ?thesis
      by (blast intro: same_shape_trans unchanged_off_trans)
  qed
qed

lemma keeps_cleanup_rethrow:
  assumes b: "keeps S body" and h: "keeps S handler"
  shows "keeps S (cleanup_rethrow body handler)"
  unfolding keeps_def
proof (intro allI impI)
  fix m r m'
  assume run: "cleanup_rethrow body handler m = (r, m')"
  obtain r1 m1 where b1: "body m = (r1, m1)" by (cases "body m")
  have s1: "same_shape m m1 \<and> unchanged_off S m m1" using keepsD [OF b b1] .
  obtain r2 m2 where h1: "handler m1 = (r2, m2)" by (cases "handler m1")
  have s2: "same_shape m1 m2 \<and> unchanged_off S m1 m2" using keepsD [OF h h1] .
  from run b1 h1 have "m' = m1 \<or> m' = m2"
    by (auto simp: cleanup_rethrow_def split: sum.splits failure.splits)
  with s1 s2 show "same_shape m m' \<and> unchanged_off S m m'"
    by (blast intro: same_shape_trans unchanged_off_trans)
qed

lemma keeps_assert [simp]: "keeps S (assert b)"
  by (simp add: keeps_def assert_def)

lemma keeps_may_throw [simp]: "keeps S (may_throw env e)"
  by (auto simp: keeps_def may_throw_def)

lemma keeps_if: "keeps S f \<Longrightarrow> keeps S g \<Longrightarrow> keeps S (if b then f else g)"
  by simp

lemma keeps_construct_at: "fst p \<in> S \<Longrightarrow> keeps S (construct_at p x)"
  by (auto simp: keeps_def dest!: construct_at_frame intro: unchanged_off_mono)

lemma keeps_destroy_at: "fst p \<in> S \<Longrightarrow> keeps S (destroy_at p)"
  by (auto simp: keeps_def dest!: destroy_at_frame intro: unchanged_off_mono)

lemma keeps_set_value: "fst p \<in> S \<Longrightarrow> keeps S (set_value p x)"
  by (auto simp: keeps_def dest!: set_value_frame intro: unchanged_off_mono)

lemma keeps_load [simp]: "keeps S (load p)"
  by (auto simp: keeps_def dest!: load_frame)

lemma keeps_RawMemory_plus [simp]: "keeps S (RawMemory_plus d k)"
  by (simp add: RawMemory_plus_def keeps_bind)

lemma keeps_RawMemory_index [simp]: "keeps S (RawMemory_index d k)"
  by (simp add: RawMemory_index_def keeps_bind)

lemma keeps_move_ctor_may_throw [simp]: "keeps S (move_ctor_may_throw env)"
  by (simp add: move_ctor_may_throw_def)

lemma keeps_T_make: "moved_source args \<subseteq> S \<Longrightarrow> keeps S (T_make env args)"
  by (cases args) (auto intro!: keeps_bind keeps_set_value)

lemma keeps_T_construct:
  "fst p \<in> S \<Longrightarrow> moved_source args \<subseteq> S \<Longrightarrow> keeps S (T_construct env args p)"
  by (simp add: T_construct_def keeps_bind keeps_construct_at keeps_T_make)

lemma keeps_T_value_construct: "fst p \<in> S \<Longrightarrow> keeps S (T_value_construct env p)"
  by (simp add: T_value_construct_def keeps_bind keeps_construct_at)

lemma keeps_T_copy_construct: "fst dst \<in> S \<Longrightarrow> keeps S (T_copy_construct env src dst)"
  by (simp add: T_copy_construct_def keeps_bind keeps_construct_at)

lemma keeps_T_move_construct:
  "fst dst \<in> S \<Longrightarrow> fst src \<in> S \<Longrightarrow> keeps S (T_move_construct env src dst)"
  by (auto simp: T_move_construct_def intro!: keeps_bind keeps_construct_at keeps_set_value)

lemma keeps_T_copy_assign: "fst dst \<in> S \<Longrightarrow> keeps S (T_copy_assign env src dst)"
  by (simp add: T_copy_assign_def keeps_bind keeps_set_value)

lemma keeps_T_move_assign:
  "fst dst \<in> S \<Longrightarrow> fst src \<in> S \<Longrightarrow> keeps S (T_move_assign env src dst)"
  by (simp add: T_move_assign_def keeps_bind keeps_set_value)

lemma keeps_T_move_assign_from_local: "fst dst \<in> S \<Longrightarrow> keeps S (T_move_assign_from_local env x dst)"
  by (simp add: T_move_assign_from_local_def keeps_bind keeps_set_value)

lemma fst_ptr_add [simp]: "fst (ptr_add p k) = fst p"
  by (simp add: ptr_add_def)

lemma snd_ptr_add [simp]: "snd (ptr_add p k) = snd p + k"
  by (simp add: ptr_add_def)

lemma keeps_destroy_n: "fst p \<in> S \<Longrightarrow> keeps S (destroy_n p n)"
proof (induction n arbitrary: p)
  case 0
  then show ?case by simp
next
  case (Suc n)
  show ?case
    unfolding destroy_n.simps
    by (intro keeps_bind keeps_destroy_at Suc.IH) (simp_all add: Suc.prems)
qed

lemma keeps_uninitialized_value_construct_n:
  "fst p \<in> S \<Longrightarrow> keeps S (uninitialized_value_construct_n env p n)"
proof (induction n arbitrary: p)
  case 0
  then show ?case by simp
next
  case (Suc n)
  show ?case
    unfolding uninitialized_value_construct_n.simps
    by (intro keeps_bind keeps_cleanup_rethrow keeps_destroy_at keeps_T_value_construct Suc.IH)
       (simp_all add: Suc.prems)
qed

lemma keeps_uninitialized_copy_n:
  "fst dst \<in> S \<Longrightarrow> keeps S (uninitialized_copy_n env src n dst)"
proof (induction n arbitrary: src dst)
  case 0
  then show ?case by simp
next
  case (Suc n)
  show ?case
    unfolding uninitialized_copy_n.simps
    by (intro keeps_bind keeps_cleanup_rethrow keeps_destroy_at keeps_T_copy_construct Suc.IH)
       (simp_all add: Suc.prems)
qed

lemma keeps_uninitialized_move_n:
  "fst dst \<in> S \<Longrightarrow> fst src \<in> S \<Longrightarrow> keeps S (uninitialized_move_n env src n dst)"
proof (induction n arbitrary: src dst)
  case 0
  then show ?case by simp
next
  case (Suc n)
  show ?case
    unfolding uninitialized_move_n.simps
    by (intro keeps_bind keeps_cleanup_rethrow keeps_destroy_at keeps_T_move_construct Suc.IH)
       (simp_all add: Suc.prems)
qed

lemma keeps_copy_loop: "fst dst \<in> S \<Longrightarrow> keeps S (copy_loop env src n dst)"
proof (induction n arbitrary: src dst)
  case 0
  then show ?case by simp
next
  case (Suc n)
  show ?case
    unfolding copy_loop.simps
    by (intro keeps_bind keeps_T_copy_assign Suc.IH) (simp_all add: Suc.prems)
qed

lemma keeps_move_loop:
  "fst dst \<in> S \<Longrightarrow> fst src \<in> S \<Longrightarrow> keeps S (move_loop env src n dst)"
proof (induction n arbitrary: src dst)
  case 0
  then show ?case by simp
next
  case (Suc n)
  show ?case
    unfolding move_loop.simps
    by (intro keeps_bind keeps_T_move_assign Suc.IH) (simp_all add: Suc.prems)
qed

lemma keeps_move_backward_loop:
  "fst dst \<in> S \<Longrightarrow> fst src \<in> S \<Longrightarrow> keeps S (move_backward_loop env src n dst)"
proof (induction n)
  case 0
  then show ?case by simp
next
  case (Suc n)
  show ?case
    unfolding move_backward_loop.simps
    by (intro keeps_bind keeps_T_move_assign Suc.IH) (simp_all add: Suc.prems)
qed

lemma keeps_InitializeDataUsingOtherData:
  "fst dst \<in> S \<Longrightarrow> fst src \<in> S \<Longrightarrow> keeps S (InitializeDataUsingOtherData env src dst n)"
  by (simp add: InitializeDataUsingOtherData_def keeps_uninitialized_copy_n
      keeps_uninitialized_move_n)

lemma keeps_copying:
  "\<not> is_nothrow_move_constructible env \<Longrightarrow> is_copy_constructible env \<Longrightarrow> fst dst \<in> S
   \<Longrightarrow> keeps S (InitializeDataUsingOtherData env src dst n)"
  by (simp add: InitializeDataUsingOtherData_def keeps_uninitialized_copy_n)

lemma ptr_add_pair [simp]: "ptr_add (b, i) k = (b, i + k)"
  by (simp add: ptr_add_def)

lemma take_Suc_update: "i < length A \<Longrightarrow> take (Suc i) (A[i := y]) = take i A @ [y]"
  by (simp add: take_Suc_conv_app_nth)

lemma take_Suc_drop: "i < length A \<Longrightarrow> take (Suc n) (drop i A) = A ! i # take n (drop (Suc i) A)"
  by (metis Cons_nth_drop_Suc take_Suc_Cons)

lemma T_copy_construct_Inr_iff:
  "T_copy_construct env src dst m = (Inr u, m') \<longleftrightarrow>
     (\<exists>x. load src m = (Inr x, m) \<and> \<not> fails_at env (clock m)
        \<and> construct_at dst x (m\<lparr>clock := Suc (clock m)\<rparr>) = (Inr u, m'))"
  by (auto simp: T_copy_construct_def bind_Inr_iff may_throw_def dest: load_frame)

lemma T_move_construct_Inr_iff:
  "T_move_construct env src dst m = (Inr u, m') \<longleftrightarrow>
     (\<exists>x m1 m2. load src m = (Inr x, m)
        \<and> m1 = (if is_nothrow_move_constructible env then m else m\<lparr>clock := Suc (clock m)\<rparr>)
        \<and> (is_nothrow_move_constructible env \<or> \<not> fails_at env (clock m))
        \<and> construct_at dst x m1 = (Inr (), m2)
        \<and> set_value src (moved_from env x) m2 = (Inr u, m'))"
  by (auto simp: T_move_construct_def move_ctor_may_throw_def bind_Inr_iff may_throw_def
      dest: load_frame)

lemma uninitialized_copy_n_Inr:
  assumes "uninitialized_copy_n env (Some a, i) n (Some b, j) m = (Inr u, m')"
    and "a \<noteq> b" and "heap m a = Some A" and "heap m b = Some B"
  shows "heap m' = (heap m)(b \<mapsto> take j B @ take n (drop i A) @ drop (j + n) B)
         \<and> (0 < n \<longrightarrow> i + n \<le> length A \<and> j + n \<le> length B)
         \<and> list_all (\<lambda>s. s \<noteq> None) (take n (drop i A))"
  using assms
proof (induction n arbitrary: i j m B)
  case 0
  then show ?case by auto
next
  case (Suc n)
  from Suc.prems(1) obtain m1 where
    step: "T_copy_construct env (Some a, i) (Some b, j) m = (Inr (), m1)" and
    rest: "uninitialized_copy_n env (Some a, Suc i) n (Some b, Suc j) m1 = (Inr u, m')"
    by (auto simp: bind_Inr_iff cleanup_rethrow_Inr_iff)
  from step Suc.prems(2-4) obtain x where
    x: "A ! i = Some x" "i < length A" "j < length B" and
    m1: "heap m1 = (heap m)(b \<mapsto> B[j := Some x])"
    by (auto simp: T_copy_construct_Inr_iff load_Inr_iff construct_at_Inr_iff)
  have a1: "heap m1 a = Some A" and b1: "heap m1 b = Some (B[j := Some x])"
    using m1 Suc.prems(2,3) by auto
  note IH = Suc.IH [OF rest Suc.prems(2) a1 b1]
  have eqB: "take (Suc j) (B[j := Some x]) @ take n (drop (Suc i) A)
          @ drop (Suc j + n) (B[j := Some x])
        = take j B @ take (Suc n) (drop i A) @ drop (j + Suc n) B"
    using x by (simp add: take_Suc_update take_Suc_drop)
  from IH have h: "heap m' = (heap m1)(b \<mapsto> take (Suc j) (B[j := Some x])
        @ take n (drop (Suc i) A) @ drop (Suc j + n) (B[j := Some x]))"
    by blast
  have "heap m' = (heap m)(b \<mapsto> take j B @ take (Suc n) (drop i A) @ drop (j + Suc n) B)"
    by (simp only: h m1 eqB fun_upd_upd)
  moreover have "list_all (\<lambda>s. s \<noteq> None) (take (Suc n) (drop i A))"
    using IH x by (simp add: take_Suc_drop)
  moreover have "i + Suc n \<le> length A \<and> j + Suc n \<le> length B"
    using IH x by (cases n) auto
  ultimately show ?case by blast
qed

lemma uninitialized_move_n_Inr:
  assumes "uninitialized_move_n env (Some a, i) n (Some b, j) m = (Inr u, m')"
    and "a \<noteq> b" and "heap m a = Some A" and "heap m b = Some B"
  shows "heap m' = (heap m)
           (a \<mapsto> take i A @ map (map_option (moved_from env)) (take n (drop i A)) @ drop (i + n) A,
            b \<mapsto> take j B @ take n (drop i A) @ drop (j + n) B)
         \<and> (0 < n \<longrightarrow> i + n \<le> length A \<and> j + n \<le> length B)
         \<and> list_all (\<lambda>s. s \<noteq> None) (take n (drop i A))"
  using assms
proof (induction n arbitrary: i j m A B)
  case 0
  then show ?case by auto
next
  case (Suc n)
  from Suc.prems(1) obtain m1 where
    step: "T_move_construct env (Some a, i) (Some b, j) m = (Inr (), m1)" and
    rest: "uninitialized_move_n env (Some a, Suc i) n (Some b, Suc j) m1 = (Inr u, m')"
    by (auto simp: bind_Inr_iff cleanup_rethrow_Inr_iff)
  from step Suc.prems(2-4) obtain x where
    x: "A ! i = Some x" "i < length A" "j < length B" and
    m1: "heap m1 = (heap m)(b \<mapsto> B[j := Some x], a \<mapsto> A[i := Some (moved_from env x)])"
    by (auto simp: T_move_construct_Inr_iff load_Inr_iff construct_at_Inr_iff set_value_Inr_iff
        split: if_splits)
  have a1: "heap m1 a = Some (A[i := Some (moved_from env x)])"
    and b1: "heap m1 b = Some (B[j := Some x])"
    using m1 Suc.prems(2) by auto
  note IH = Suc.IH [OF rest Suc.prems(2) a1 b1]
  let ?A1 = "A[i := Some (moved_from env x)]"
  have eqB: "take (Suc j) (B[j := Some x]) @ take n (drop (Suc i) ?A1)
          @ drop (Suc j + n) (B[j := Some x])
        = take j B @ take (Suc n) (drop i A) @ drop (j + Suc n) B"
    using x by (simp add: take_Suc_update take_Suc_drop)
  have eqA: "take (Suc i) ?A1 @ map (map_option (moved_from env)) (take n (drop (Suc i) ?A1))
          @ drop (Suc i + n) ?A1
        = take i A @ map (map_option (moved_from env)) (take (Suc n) (drop i A))
          @ drop (i + Suc n) A"
    using x by (simp add: take_Suc_update take_Suc_drop)
  from IH have h: "heap m' = (heap m1)
           (a \<mapsto> take (Suc i) ?A1 @ map (map_option (moved_from env)) (take n (drop (Suc i) ?A1))
                  @ drop (Suc i + n) ?A1,
            b \<mapsto> take (Suc j) (B[j := Some x]) @ take n (drop (Suc i) ?A1)
                  @ drop (Suc j + n) (B[j := Some x]))"
    by blast
  have "heap m' = (heap m)
           (a \<mapsto> take i A @ map (map_option (moved_from env)) (take (Suc n) (drop i A))
                  @ drop (i + Suc n) A,
            b \<mapsto> take j B @ take (Suc n) (drop i A) @ drop (j + Suc n) B)"
    unfolding h eqA eqB m1 by (intro ext) simp
  moreover have "list_all (\<lambda>s. s \<noteq> None) (take (Suc n) (drop i A))"
    using IH x by (simp add: take_Suc_drop)
  moreover have "i + Suc n \<le> length A \<and> j + Suc n \<le> length B"
    using IH x by (cases n) auto
  ultimately show ?case by blast
qed

lemma destroy_n_no_exn: "destroy_n p n m \<noteq> (Inl (Exception e), m')"
proof (induction n arbitrary: p m)
  case 0
  then show ?case by simp
next
  case (Suc n)
  then show ?case by (auto simp: bind_Inl_iff destroy_at_no_exn)
qed

lemma operator_delete_Inr_iff:
  "operator_delete buf m = (Inr u, m') \<longleftrightarrow>
     (case buf of None \<Rightarrow> m' = m
      | Some a \<Rightarrow> heap m a \<noteq> None \<and> m' = m\<lparr>heap := (heap m)(a := None)\<rparr>)"
  by (auto simp: operator_delete_def split: option.splits)

lemma RawMemory_dtor_Inr_iff:
  "RawMemory_dtor d m = (Inr u, m') \<longleftrightarrow>
     (case m_buffer d of None \<Rightarrow> m' = m
      | Some a \<Rightarrow> heap m a \<noteq> None \<and> m' = m\<lparr>heap := (heap m)(a := None)\<rparr>)"
  by (simp add: RawMemory_dtor_def Deallocate_def operator_delete_Inr_iff)

lemma RawMemory_dtor_no_exn: "RawMemory_dtor d m \<noteq> (Inl (Exception e), m')"
  by (auto simp: RawMemory_dtor_def Deallocate_def operator_delete_def split: option.splits)

lemma RawMemory_ctor_Inr:
  assumes "RawMemory_ctor env c m = (Inr d, m')"
  shows "m_capacity d = c"
    and "c = 0 \<Longrightarrow> m_buffer d = None \<and> m' = m"
    and "c \<noteq> 0 \<Longrightarrow> m_buffer d = Some (brk m) \<and> brk m' = Suc (brk m)
           \<and> heap m' = (heap m)(brk m \<mapsto>
                replicate ((c * sizeof_T env mod size_t_range) div sizeof_T env) None)"
  using assms
  by (auto simp: RawMemory_ctor_def Allocate_def operator_new_def bind_Inr_iff may_throw_def
      split: if_splits)

lemma RawMemory_ctor_Inl:
  assumes "RawMemory_ctor env c m = (Inl f, m')"
  shows "f = Exception bad_alloc \<and> heap m' = heap m \<and> brk m' = brk m"
  using assms
  by (auto simp: RawMemory_ctor_def Allocate_def operator_new_def bind_Inl_iff may_throw_def
      split: if_splits)

lemma RawMemory_plus_Inr_iff:
  "RawMemory_plus d k s = (Inr p, s') \<longleftrightarrow> k \<le> m_capacity d \<and> p = (m_buffer d, k) \<and> s' = s"
  by (auto simp: RawMemory_plus_def bind_Inr_iff assert_Inr_iff)

lemma RawMemory_index_Inr_iff:
  "RawMemory_index d k s = (Inr p, s') \<longleftrightarrow> k < m_capacity d \<and> p = (m_buffer d, k) \<and> s' = s"
  by (auto simp: RawMemory_index_def bind_Inr_iff assert_Inr_iff)

lemma RawMemory_plus_no_exn: "RawMemory_plus d k s \<noteq> (Inl (Exception e), s')"
  by (auto simp: RawMemory_plus_def bind_Inl_iff assert_Inl_iff)

lemma RawMemory_index_no_exn: "RawMemory_index d k s \<noteq> (Inl (Exception e), s')"
  by (auto simp: RawMemory_index_def bind_Inl_iff assert_Inl_iff)

lemma T_move_construct_nothrow:
  "is_nothrow_move_constructible env \<Longrightarrow> T_move_construct env src dst m \<noteq> (Inl (Exception e), m')"
  by (auto simp: T_move_construct_def move_ctor_may_throw_def bind_Inl_iff
      dest: load_Inl construct_at_Inl set_value_Inl)

lemma uninitialized_move_n_nothrow:
  "is_nothrow_move_constructible env \<Longrightarrow>
     uninitialized_move_n env src n dst m \<noteq> (Inl (Exception e), m')"
proof (induction n arbitrary: src dst m e m')
  case 0
  then show ?case by simp
next
  case (Suc n)
  then show ?case
    by (auto simp: bind_Inl_iff cleanup_rethrow_Exception_iff T_move_construct_nothrow
        destroy_at_no_exn ptr_add_def)
qed

text \<open>A relocation that returns has found room for every element at its destination.\<close>

lemma uninitialized_copy_n_room:
  "uninitialized_copy_n env src n dst m = (Inr u, m') \<Longrightarrow> 0 < n \<Longrightarrow>
     \<exists>b B. fst dst = Some b \<and> heap m b = Some B \<and> snd dst + n \<le> length B"
proof (induction n arbitrary: src dst m)
  case 0
  then show ?case by simp
next
  case (Suc n)
  from Suc.prems(1) obtain m1 where
    step: "T_copy_construct env src dst m = (Inr (), m1)" and
    rest: "uninitialized_copy_n env (ptr_add src 1) n (ptr_add dst 1) m1 = (Inr u, m')"
    by (auto simp: bind_Inr_iff cleanup_rethrow_Inr_iff)
  from step obtain b B where b: "fst dst = Some b" "heap m b = Some B" "snd dst < length B"
    by (auto simp: T_copy_construct_Inr_iff construct_at_Inr_iff)
  have shape: "same_shape m m1"
    using keepsD [OF keeps_T_copy_construct step, of "{fst dst}"] by simp
  show ?case
  proof (cases n)
    case 0
    with b show ?thesis by simp
  next
    case (Suc k)
    with Suc.IH [OF rest] b obtain B1 where "heap m1 b = Some B1" "snd dst + 1 + n \<le> length B1"
      by auto
    moreover from shape b have "map_option length (heap m1 b) = Some (length B)"
      by (simp add: same_shape_def)
    ultimately show ?thesis using b by auto
  qed
qed

lemma uninitialized_move_n_room:
  "uninitialized_move_n env src n dst m = (Inr u, m') \<Longrightarrow> 0 < n \<Longrightarrow>
     \<exists>b B. fst dst = Some b \<and> heap m b = Some B \<and> snd dst + n \<le> length B"
proof (induction n arbitrary: src dst m)
  case 0
  then show ?case by simp
next
  case (Suc n)
  from Suc.prems(1) obtain m1 where
    step: "T_move_construct env src dst m = (Inr (), m1)" and
    rest: "uninitialized_move_n env (ptr_add src 1) n (ptr_add dst 1) m1 = (Inr u, m')"
    by (auto simp: bind_Inr_iff cleanup_rethrow_Inr_iff)
  from step obtain b B where b: "fst dst = Some b" "heap m b = Some B" "snd dst < length B"
    by (auto simp: T_move_construct_Inr_iff construct_at_Inr_iff split: if_splits)
  have shape: "same_shape m m1"
    using keepsD [OF keeps_T_move_construct step, of "{fst dst, fst src}"] by simp
  show ?case
  proof (cases n)
    case 0
    with b show ?thesis by simp
  next
    case (Suc k)
    with Suc.IH [OF rest] b obtain B1 where "heap m1 b = Some B1" "snd dst + 1 + n \<le> length B1"
      by auto
    moreover from shape b have "map_option length (heap m1 b) = Some (length B)"
      by (simp add: same_shape_def)
    ultimately show ?thesis using b by auto
  qed
qed

lemma InitializeDataUsingOtherData_room:
  "InitializeDataUsingOtherData env src dst n m = (Inr u, m') \<Longrightarrow> 0 < n \<Longrightarrow>
     \<exists>b B. fst dst = Some b \<and> heap m b = Some B \<and> snd dst + n \<le> length B"
  by (auto simp: InitializeDataUsingOtherData_def split: if_splits
      dest: uninitialized_copy_n_room uninitialized_move_n_room)

lemma InitializeDataUsingOtherData_Inr:
  assumes "InitializeDataUsingOtherData env (Some a, i) (Some b, j) n m = (Inr u, m')"
    and "a \<noteq> b" and "heap m a = Some A" and "heap m b = Some B"
  shows "heap m' b = Some (take j B @ take n (drop i A) @ drop (j + n) B)"
    and "\<exists>A'. heap m' a = Some A' \<and> length A' = length A \<and> drop (i + n) A' = drop (i + n) A"
    and "unchanged_off {Some a, Some b} m m'"
    and "brk m' = brk m"
    and "list_all (\<lambda>s. s \<noteq> None) (take n (drop i A))"
    and "0 < n \<Longrightarrow> i + n \<le> length A \<and> j + n \<le> length B"
proof -
  have k: "same_shape m m' \<and> unchanged_off {Some a, Some b} m m'"
    using keepsD [OF keeps_InitializeDataUsingOtherData assms(1), of "{Some a, Some b}"] by simp
  then show "unchanged_off {Some a, Some b} m m'" and "brk m' = brk m"
    by (simp_all add: same_shape_def)
  show "heap m' b = Some (take j B @ take n (drop i A) @ drop (j + n) B)"
    using assms uninitialized_copy_n_Inr [of env a i n b j m u m' A B]
      uninitialized_move_n_Inr [of env a i n b j m u m' A B]
    by (auto simp: InitializeDataUsingOtherData_def split: if_splits)
  show "list_all (\<lambda>s. s \<noteq> None) (take n (drop i A))"
    using assms uninitialized_copy_n_Inr [of env a i n b j m u m' A B]
      uninitialized_move_n_Inr [of env a i n b j m u m' A B]
    by (auto simp: InitializeDataUsingOtherData_def split: if_splits)
  show "i + n \<le> length A \<and> j + n \<le> length B" if "0 < n"
    using that assms uninitialized_copy_n_Inr [of env a i n b j m u m' A B]
      uninitialized_move_n_Inr [of env a i n b j m u m' A B]
    by (auto simp: InitializeDataUsingOtherData_def split: if_splits)
  show "\<exists>A'. heap m' a = Some A' \<and> length A' = length A \<and> drop (i + n) A' = drop (i + n) A"
  proof (cases "is_nothrow_move_constructible env \<or> \<not> is_copy_constructible env")
    case True
    with assms uninitialized_move_n_Inr [of env a i n b j m u m' A B]
    have h: "heap m' a = Some (take i A @ map (map_option (moved_from env)) (take n (drop i A))
                 @ drop (i + n) A)"
      by (auto simp: InitializeDataUsingOtherData_def)
    show ?thesis
      unfolding h by (auto simp: min_def drop_take)
  next
    case False
    with assms uninitialized_copy_n_Inr [of env a i n b j m u m' A B]
    have "heap m' a = Some A"
      by (auto simp: InitializeDataUsingOtherData_def)
    then show ?thesis by simp
  qed
qed

lemma no_throwD: "no_throw act \<Longrightarrow> act m \<noteq> (Inl (Exception e), m')"
  by (simp add: no_throw_def)

lemma throw_keepsD: "throw_keeps S act \<Longrightarrow> act m = (Inl (Exception e), m') \<Longrightarrow> unchanged_off S m m'"
  by (simp add: throw_keeps_def)

lemma throw_keeps_shapeD: "throw_keeps S act \<Longrightarrow> act m = (Inl (Exception e), m') \<Longrightarrow> same_shape m m'"
  by (simp add: throw_keeps_def)

lemma no_throw_throw_keeps: "no_throw act \<Longrightarrow> throw_keeps S act"
  by (simp add: no_throw_def throw_keeps_def)

lemma keeps_throw_keeps: "keeps S act \<Longrightarrow> throw_keeps S act"
  by (simp add: keeps_def throw_keeps_def)

lemma no_throw_return [simp]: "no_throw (\<lambda>m. (Inr x, m))"
  by (simp add: no_throw_def)

lemma no_throw_assert [simp]: "no_throw (assert b)"
  by (simp add: no_throw_def assert_def)

lemma no_throw_bind: "no_throw f \<Longrightarrow> (\<And>x. no_throw (g x)) \<Longrightarrow> no_throw (bind f g)"
  by (auto simp: no_throw_def bind_Inl_iff)

lemma no_throw_cleanup_rethrow: "no_throw body \<Longrightarrow> no_throw (cleanup_rethrow body handler)"
  by (auto simp: no_throw_def cleanup_rethrow_Exception_iff)

lemma throw_keeps_bind_then_quiet:
  "throw_keeps S f \<Longrightarrow> (\<And>x. no_throw (g x)) \<Longrightarrow> throw_keeps S (bind f g)"
  by (auto simp: no_throw_def throw_keeps_def bind_Inl_iff)

lemma throw_keeps_bind:
  assumes f: "keeps S f" and g: "\<And>x. throw_keeps S (g x)"
  shows "throw_keeps S (bind f g)"
  unfolding throw_keeps_def
proof (intro allI impI)
  fix m e m'
  assume "bind f g m = (Inl (Exception e), m')"
  then consider "f m = (Inl (Exception e), m')"
    | x m1 where "f m = (Inr x, m1)" "g x m1 = (Inl (Exception e), m')"
    by (auto simp: bind_Inl_iff)
  then show "same_shape m m' \<and> unchanged_off S m m'"
  proof cases
    case 1
    then show ?thesis using keepsD [OF f] by blast
  next
    case 2
    then show ?thesis
      using keepsD [OF f 2(1)] throw_keepsD [OF g 2(2)] throw_keeps_shapeD [OF g 2(2)]
      by (blast intro: unchanged_off_trans same_shape_trans)
  qed
qed

lemma throw_keeps_cleanup_rethrow:
  assumes b: "throw_keeps S body" and h: "keeps S handler"
  shows "throw_keeps S (cleanup_rethrow body handler)"
  unfolding throw_keeps_def
proof (intro allI impI)
  fix m e m'
  assume "cleanup_rethrow body handler m = (Inl (Exception e), m')"
  then obtain e1 m1 r where "body m = (Inl (Exception e1), m1)" "handler m1 = (r, m')"
    by (auto simp: cleanup_rethrow_Exception_iff)
  then show "same_shape m m' \<and> unchanged_off S m m'"
    using throw_keepsD [OF b] throw_keeps_shapeD [OF b] keepsD [OF h]
    by (blast intro: unchanged_off_trans same_shape_trans)
qed

lemma no_throw_destroy_at [simp]: "no_throw (destroy_at p)"
  by (simp add: no_throw_def destroy_at_no_exn)

lemma no_throw_destroy_n [simp]: "no_throw (destroy_n p n)"
  by (simp add: no_throw_def destroy_n_no_exn)

lemma no_throw_RawMemory_dtor [simp]: "no_throw (RawMemory_dtor d)"
  by (simp add: no_throw_def RawMemory_dtor_no_exn)

lemma no_throw_moving:
  "is_nothrow_move_constructible env \<Longrightarrow> no_throw (InitializeDataUsingOtherData env src dst n)"
  by (simp add: no_throw_def InitializeDataUsingOtherData_def uninitialized_move_n_nothrow)

lemma bind_RawMemory_plus:
  "bind (RawMemory_plus d k) g = bind (assert (k \<le> m_capacity d)) (\<lambda>_. g (m_buffer d, k))"
  by (auto simp: RawMemory_plus_def bind_def assert_def fun_eq_iff)

lemma bind_RawMemory_index:
  "bind (RawMemory_index d k) g = bind (assert (k < m_capacity d)) (\<lambda>_. g (m_buffer d, k))"
  by (auto simp: RawMemory_index_def bind_def assert_def fun_eq_iff)

text \<open>
  A relocation that throws has written only to the destination block, unless it moves
  elements with a move constructor that may throw.
\<close>

lemma relocation_throw_keeps:
  assumes "is_nothrow_move_constructible env \<or> is_copy_constructible env \<or> fst src \<in> S"
    and "fst dst \<in> S"
  shows "throw_keeps S (InitializeDataUsingOtherData env src dst n)"
proof (cases "is_nothrow_move_constructible env")
  case True
  then show ?thesis by (simp add: no_throw_moving no_throw_throw_keeps)
next
  case nt: False
  show ?thesis
  proof (cases "is_copy_constructible env")
    case True
    with nt assms show ?thesis by (simp add: keeps_copying keeps_throw_keeps)
  next
    case False
    with nt assms show ?thesis
      by (simp add: keeps_InitializeDataUsingOtherData keeps_throw_keeps)
  qed
qed

lemma Reserve_exception_frame:
  assumes run: "Reserve env new_capacity this m = (Inl (Exception e), this', m')"
    and fresh: "heap m (brk m) = None"
    and own: "is_nothrow_move_constructible env \<or> is_copy_constructible env
              \<or> m_buffer (m_data this) \<in> S"
  shows "this' = this \<and> heap m' (brk m) = None \<and> (\<forall>a. Some a \<notin> S \<longrightarrow> heap m' a = heap m a)"
proof -
  let ?body = "\<lambda>new_data.
         bind (cleanup_rethrow
                 (InitializeDataUsingOtherData env (GetAddress (m_data this))
                    (GetAddress new_data) (m_size this))
                 (RawMemory_dtor new_data)) (\<lambda>_.
         bind (destroy_n (GetAddress (m_data this)) (m_size this)) (\<lambda>_.
         case RawMemory_Swap (m_data this) new_data of (d, new_data1) \<Rightarrow>
         bind (RawMemory_dtor new_data1) (\<lambda>_ m.
         (Inr ((), this\<lparr>m_data := d\<rparr>), m))))"
  from run have big: "\<not> new_capacity \<le> RawMemory_Capacity (m_data this)"
    by (auto simp: Reserve_def split: if_splits)
  with run have this': "this' = this"
    and run1: "bind (RawMemory_ctor env new_capacity) ?body m = (Inl (Exception e), m')"
    by (auto simp: Reserve_def member_def split: prod.splits sum.splits)
  from run1 consider
      (alloc) "RawMemory_ctor env new_capacity m = (Inl (Exception e), m')"
    | (later) new_data m1 where "RawMemory_ctor env new_capacity m = (Inr new_data, m1)"
        "?body new_data m1 = (Inl (Exception e), m')"
    by (auto simp: bind_Inl_iff)
  then have "heap m' (brk m) = None \<and> (\<forall>a. Some a \<notin> S \<longrightarrow> heap m' a = heap m a)"
  proof cases
    case alloc
    then show ?thesis using fresh by (simp add: RawMemory_ctor_Inl)
  next
    case later
    from big have nz: "new_capacity \<noteq> 0" by auto
    note new = RawMemory_ctor_Inr(3) [OF later(1) nz]
    let ?b = "brk m"
    have quiet: "\<And>x. no_throw (\<lambda>m. case RawMemory_Swap (m_data this) new_data of (d, new_data1) \<Rightarrow>
         bind (RawMemory_dtor new_data1) (\<lambda>_ m.
         (Inr ((), this\<lparr>m_data := d\<rparr>), m)) m)"
      by (auto simp: RawMemory_Swap_eq intro!: no_throw_bind)
    from later(2) obtain m2 where
      thrown: "InitializeDataUsingOtherData env (GetAddress (m_data this))
                 (GetAddress new_data) (m_size this) m1 = (Inl (Exception e), m2)" and
      freed: "RawMemory_dtor new_data m2 = (Inr (), m')"
      using quiet
      by (auto simp: bind_Inl_iff cleanup_rethrow_Exception_iff RawMemory_dtor_no_exn
          destroy_n_no_exn RawMemory_Swap_eq)
    have "throw_keeps (insert (Some ?b) S)
        (InitializeDataUsingOtherData env (GetAddress (m_data this))
           (GetAddress new_data) (m_size this))"
      using own new by (intro relocation_throw_keeps) (auto simp: GetAddress_def)
    from throw_keepsD [OF this thrown]
    have "unchanged_off (insert (Some ?b) S) m1 m2" .
    moreover from freed new have "heap m' = (heap m2)(?b := None)"
      by (auto simp: RawMemory_dtor_Inr_iff)
    ultimately show ?thesis
      using new fresh by (auto simp: unchanged_off_def)
  qed
  with this' show ?thesis by simp
qed

lemma Reserve_exception:
  assumes run: "Reserve env new_capacity this m = (Inl (Exception e), this', m')"
    and traits: "is_nothrow_move_constructible env \<or> is_copy_constructible env"
    and fresh: "heap m (brk m) = None"
  shows "this' = this \<and> heap m' = heap m"
  using Reserve_exception_frame [OF run fresh, of "{}"] traits by (auto simp: fun_eq_iff)

lemma no_throw_RawMemory_plus [simp]: "no_throw (RawMemory_plus d k)"
  by (simp add: no_throw_def RawMemory_plus_no_exn)

lemma no_throw_ptr_le [simp]: "no_throw (ptr_le p q)"
  by (simp add: no_throw_def ptr_le_def)

lemma no_throw_ptr_less [simp]: "no_throw (ptr_less p q)"
  by (simp add: no_throw_def ptr_less_def)

lemma ptr_le_Inr_iff:
  "ptr_le p q s = (Inr c, s') \<longleftrightarrow> fst p = fst q \<and> c = (snd p \<le> snd q) \<and> s' = s"
  by (auto simp: ptr_le_def)

lemma ptr_less_Inr_iff:
  "ptr_less p q s = (Inr c, s') \<longleftrightarrow> fst p = fst q \<and> c = (snd p < snd q) \<and> s' = s"
  by (auto simp: ptr_less_def)

lemma ptr_le_no_exn: "ptr_le p q s \<noteq> (Inl (Exception e), s')"
  by (simp add: ptr_le_def)

lemma ptr_less_no_exn: "ptr_less p q s \<noteq> (Inl (Exception e), s')"
  by (simp add: ptr_less_def)

lemma assert_no_exn: "assert b s \<noteq> (Inl (Exception e), s')"
  by (simp add: assert_def)

lemma bind_InlE:
  assumes "bind f g s = (Inl e, s')"
  obtains "f s = (Inl e, s')" | x s1 where "f s = (Inr x, s1)" "g x s1 = (Inl e, s')"
  using assms by (auto simp: bind_Inl_iff)

lemma cleanup_rethrow_ExceptionE:
  assumes "cleanup_rethrow body handler s = (Inl (Exception e), s')"
    and "no_throw handler"
  obtains s1 where "body s = (Inl (Exception e), s1)" "handler s1 = (Inr (), s')"
  using assms by (auto simp: cleanup_rethrow_Exception_iff no_throw_def)

lemma keeps_bind_plus:
  "keeps S (g (m_buffer d, k)) \<Longrightarrow> keeps S (bind (RawMemory_plus d k) g)"
  unfolding bind_RawMemory_plus by (rule keeps_bind) simp_all

lemma throw_keeps_bind_plus:
  "throw_keeps S (g (m_buffer d, k)) \<Longrightarrow> throw_keeps S (bind (RawMemory_plus d k) g)"
  unfolding bind_RawMemory_plus by (rule throw_keeps_bind) simp_all

lemma no_throw_bind_plus:
  "no_throw (g (m_buffer d, k)) \<Longrightarrow> no_throw (bind (RawMemory_plus d k) g)"
  unfolding bind_RawMemory_plus by (rule no_throw_bind) simp_all

lemma T_make_exception:
  "T_make env args m = (Inl (Exception e), m1) \<Longrightarrow> heap m1 = heap m \<and> brk m1 = brk m"
  by (cases args)
    (auto simp: move_ctor_may_throw_def bind_Inl_iff may_throw_def load_Inr_iff
      dest: load_Inl set_value_Inl split: if_splits)

text \<open>A constructor call that throws has written nothing.\<close>

lemma throw_keeps_T_construct: "throw_keeps S (T_construct env args p)"
  unfolding throw_keeps_def
proof (intro allI impI)
  fix m e m'
  assume "T_construct env args p m = (Inl (Exception e), m')"
  then have "T_make env args m = (Inl (Exception e), m')"
    unfolding T_construct_def by (rule bind_InlE) (auto dest: construct_at_Inl)
  from T_make_exception [OF this] show "same_shape m m' \<and> unchanged_off S m m'"
    by (simp add: same_shape_def unchanged_off_def)
qed

text \<open>
  The part of \<open>EmplaceWithRealloc\<close> between the allocation of \<open>new_data\<close> and the
  destructor of \<open>new_data\<close>: when it throws, it has written to the new block, to the
  object that the new element was moved from if the move constructor may throw, and to
  the old block if the elements are moved with a move constructor that may throw.
\<close>

lemma EmplaceWithRealloc_exception_frame:
  assumes run: "EmplaceWithRealloc env pos args this m = (Inl (Exception e), m')"
    and fresh: "heap m (brk m) = None"
    and src: "is_nothrow_move_constructible env \<or> moved_source args \<subseteq> S"
    and own: "is_nothrow_move_constructible env \<or> is_copy_constructible env
              \<or> m_buffer (m_data this) \<in> S"
  shows "heap m' (brk m) = None \<and> (\<forall>a. Some a \<notin> S \<longrightarrow> heap m' a = heap m a)"
proof -
  let ?i = "ptr_diff pos (Vector_begin this)"
  let ?c = "if m_size this = 0 then 1 else m_size this * 2 mod size_t_range"
  let ?rest = "\<lambda>new_data.
         bind (destroy_n (GetAddress (m_data this)) (m_size this)) (\<lambda>_.
         case RawMemory_Swap (m_data this) new_data of (d, new_data1) \<Rightarrow>
         bind (RawMemory_plus d ?i) (\<lambda>r.
         bind (RawMemory_dtor new_data1) (\<lambda>_ m.
         (Inr (r, \<lparr>m_data = d, m_size = (m_size this + 1) mod size_t_range\<rparr>), m))))"
  let ?cr1 = "\<lambda>new_data. cleanup_rethrow
                 (InitializeDataUsingOtherData env (GetAddress (m_data this))
                    (GetAddress new_data) ?i)
                 (bind (RawMemory_index new_data ?i) destroy_at)"
  let ?cr2 = "\<lambda>new_data. cleanup_rethrow
                 (bind (RawMemory_plus (m_data this) ?i) (\<lambda>from.
                  bind (RawMemory_plus new_data ?i) (\<lambda>to.
                  InitializeDataUsingOtherData env from (ptr_add to 1)
                    (m_size this - ?i))))
                 (destroy_n (GetAddress new_data) (?i + 1))"
  let ?body = "\<lambda>new_data.
        (bind (RawMemory_plus new_data ?i) (\<lambda>p.
         bind (T_construct env args p) (\<lambda>_.
         bind (?cr1 new_data) (\<lambda>_.
         bind (?cr2 new_data) (\<lambda>_. ?rest new_data)))))"
  let ?S = "\<lambda>new_data. insert (m_buffer new_data) S"
  have quiet_rest: "no_throw (?rest new_data)" for new_data
    by (auto simp: RawMemory_Swap_eq intro!: no_throw_bind)
  have k1: "keeps (?S new_data) (bind (RawMemory_index new_data ?i) destroy_at)"
    for new_data
    by (simp add: bind_RawMemory_index keeps_bind keeps_destroy_at)
  have k2: "keeps (?S new_data) (destroy_n (GetAddress new_data) (?i + 1))" for new_data
    by (rule keeps_destroy_n) (simp add: GetAddress_def)
  have body: "throw_keeps (?S new_data) (?body new_data)" for new_data
  proof (cases "is_nothrow_move_constructible env")
    case True
    have q2: "no_throw (?cr2 new_data)"
      by (intro no_throw_cleanup_rethrow no_throw_bind_plus no_throw_moving True)
    have q1: "no_throw (?cr1 new_data)"
      by (intro no_throw_cleanup_rethrow no_throw_moving True)
    have "no_throw (bind (?cr1 new_data) (\<lambda>_. bind (?cr2 new_data) (\<lambda>_. ?rest new_data)))"
      by (rule no_throw_bind [OF q1 no_throw_bind [OF q2 quiet_rest]])
    then have "throw_keeps (?S new_data)
        (bind (T_construct env args (m_buffer new_data, ?i)) (\<lambda>_.
         bind (?cr1 new_data) (\<lambda>_. bind (?cr2 new_data) (\<lambda>_. ?rest new_data))))"
      by (intro throw_keeps_bind_then_quiet throw_keeps_T_construct) simp_all
    then show ?thesis by (rule throw_keeps_bind_plus)
  next
    case False
    with src have src': "moved_source args \<subseteq> ?S new_data" by auto
    from False own have own': "is_copy_constructible env \<or> m_buffer (m_data this) \<in> ?S new_data"
      by auto
    have r1: "keeps (?S new_data)
        (InitializeDataUsingOtherData env (GetAddress (m_data this)) (GetAddress new_data) ?i)"
      using own' False
      by (cases "is_copy_constructible env")
        (simp_all add: keeps_copying keeps_InitializeDataUsingOtherData GetAddress_def)
    have r2: "keeps (?S new_data)
        (InitializeDataUsingOtherData env (m_buffer (m_data this), ?i)
           (ptr_add (m_buffer new_data, ?i) 1) (m_size this - ?i))"
      using own' False
      by (cases "is_copy_constructible env")
        (simp_all add: keeps_copying keeps_InitializeDataUsingOtherData)
    have c1: "keeps (?S new_data) (?cr1 new_data)"
      by (rule keeps_cleanup_rethrow [OF r1 k1])
    have c2: "keeps (?S new_data) (?cr2 new_data)"
      by (intro keeps_cleanup_rethrow keeps_bind_plus r2 k2)
    have t2: "throw_keeps (?S new_data) (bind (?cr2 new_data) (\<lambda>_. ?rest new_data))"
      by (rule throw_keeps_bind_then_quiet [OF keeps_throw_keeps [OF c2] quiet_rest])
    have t1: "throw_keeps (?S new_data)
        (bind (?cr1 new_data) (\<lambda>_. bind (?cr2 new_data) (\<lambda>_. ?rest new_data)))"
      by (rule throw_keeps_bind [OF c1 t2])
    have kc: "keeps (?S new_data) (T_construct env args (m_buffer new_data, ?i))"
      using src' by (intro keeps_T_construct) simp_all
    have "throw_keeps (?S new_data)
        (bind (T_construct env args (m_buffer new_data, ?i)) (\<lambda>_.
         bind (?cr1 new_data) (\<lambda>_. bind (?cr2 new_data) (\<lambda>_. ?rest new_data))))"
      by (rule throw_keeps_bind [OF kc t1])
    then show ?thesis by (rule throw_keeps_bind_plus)
  qed
  from run have run1: "bind (RawMemory_ctor env ?c)
      (\<lambda>new_data. cleanup_rethrow (?body new_data) (RawMemory_dtor new_data)) m
      = (Inl (Exception e), m')"
    by (simp add: EmplaceWithRealloc_def Let_def)
  then show ?thesis
  proof (cases rule: bind_InlE)
    case 1
    then show ?thesis using fresh by (simp add: RawMemory_ctor_Inl)
  next
    case later: (2 new_data m1)
    from later(2) obtain m2 where
      thrown: "?body new_data m1 = (Inl (Exception e), m2)" and
      freed: "RawMemory_dtor new_data m2 = (Inr (), m')"
      by (rule cleanup_rethrow_ExceptionE) simp_all
    have off: "unchanged_off (?S new_data) m1 m2"
      using body [of new_data] thrown by (rule throw_keepsD)
    have shape: "same_shape m1 m2"
      using body [of new_data] thrown by (rule throw_keeps_shapeD)
    show ?thesis
    proof (cases "?c = 0")
      case True
      note null = RawMemory_ctor_Inr(2) [OF later(1) True]
      from null freed have same: "m' = m2" "m1 = m"
        by (simp_all add: RawMemory_dtor_Inr_iff)
      from shape fresh have "heap m' (brk m) = None"
        unfolding same by (auto simp: same_shape_def dest: spec [where x = "brk m"])
      moreover from off null have "\<forall>a. Some a \<notin> S \<longrightarrow> heap m' a = heap m a"
        unfolding same by (simp add: unchanged_off_def)
      ultimately show ?thesis by simp
    next
      case False
      note new = RawMemory_ctor_Inr(3) [OF later(1) False]
      from freed new have "heap m' = (heap m2)(brk m := None)"
        by (auto simp: RawMemory_dtor_Inr_iff)
      with off new fresh show ?thesis
        by (auto simp: unchanged_off_def)
    qed
  qed
qed

lemma Emplace_exception_frame:
  assumes run: "Emplace env pos args this m = (Inl (Exception e), this', m')"
    and full: "m_size this = Capacity this"
    and fresh: "heap m (brk m) = None"
    and src: "is_nothrow_move_constructible env \<or> moved_source args \<subseteq> S"
    and own: "is_nothrow_move_constructible env \<or> is_copy_constructible env
              \<or> m_buffer (m_data this) \<in> S"
  shows "this' = this \<and> heap m' (brk m) = None \<and> (\<forall>a. Some a \<notin> S \<longrightarrow> heap m' a = heap m a)"
proof -
  from run have this': "this' = this"
    by (auto simp: Emplace_def member_def split: prod.splits sum.splits)
  from run full have "EmplaceWithRealloc env pos args this m = (Inl (Exception e), m')"
    by (auto simp: Emplace_def member_def Vector_end_def bind_Inl_iff ptr_le_Inr_iff
        ptr_le_no_exn assert_no_exn assert_Inr_iff RawMemory_plus_Inr_iff RawMemory_plus_no_exn
        split: prod.splits sum.splits)
  from EmplaceWithRealloc_exception_frame [OF this fresh src own] this' show ?thesis by simp
qed

lemma valid_Some:
  assumes "valid env this m" and "m_buffer (m_data this) = Some a"
  obtains A where "heap m a = Some A" "length A = m_capacity (m_data this)"
    "list_all (\<lambda>s. s \<noteq> None) (take (m_size this) A)" "a \<noteq> brk m"
proof -
  from assms obtain A where A: "heap m a = Some A" "length A = m_capacity (m_data this)"
    "list_all (\<lambda>s. s \<noteq> None) (take (m_size this) A)"
    by (auto simp: valid_def split: option.splits)
  moreover from assms have "heap m (brk m) = None" by (simp add: valid_def)
  with A have "a \<noteq> brk m" by auto
  ultimately show ?thesis using that by blast
qed

lemma valid_None:
  assumes "valid env this m" and "m_buffer (m_data this) = None"
  shows "m_size this = 0" and "m_capacity (m_data this) = 0"
  using assms by (auto simp: valid_def)

lemma valid_facts:
  assumes "valid env this m"
  shows "0 < sizeof_T env" and "m_size this \<le> m_capacity (m_data this)"
    and "m_capacity (m_data this) * sizeof_T env < size_t_range"
    and "heap m (brk m) = None"
  using assms by (auto simp: valid_def)

lemma elements_Some:
  "m_buffer (m_data this) = Some a \<Longrightarrow> heap m a = Some A \<Longrightarrow>
     elements this m = map the (take (m_size this) A)"
  by (simp add: elements_def block_of_def)

lemma elements_empty: "m_size this = 0 \<Longrightarrow> elements this m = []"
  by (simp add: elements_def)

lemma InitializeDataUsingOtherData_zero [simp]:
  "InitializeDataUsingOtherData env src dst 0 m = (Inr (), m)"
  by (simp add: InitializeDataUsingOtherData_def)

lemma bind_InrE:
  assumes "bind f g s = (Inr y, s')"
  obtains x s1 where "f s = (Inr x, s1)" "g x s1 = (Inr y, s')"
  using assms by (auto simp: bind_Inr_iff)

lemma member_Inr_iff:
  "member this body m = (Inr r, this', m') \<longleftrightarrow> body m = (Inr (r, this'), m')"
  by (auto simp: member_def split: prod.splits sum.splits)

lemma member_Inl_iff:
  "member this body m = (Inl f, this', m') \<longleftrightarrow> body m = (Inl f, m') \<and> this' = this"
  by (auto simp: member_def split: prod.splits sum.splits)

lemma destroy_n_frame:
  "destroy_n p n m = (r, m') \<Longrightarrow> Some b \<noteq> fst p \<Longrightarrow> heap m' b = heap m b"
  using keepsD [OF keeps_destroy_n, of p "{fst p}" n m r m']
  by (auto simp: unchanged_off_def)

lemma Reserve_Inr:
  assumes v: "valid env this m"
    and big: "m_capacity (m_data this) < new_capacity"
    and run: "Reserve env new_capacity this m = (Inr u, this', m')"
  shows "m_data this' = \<lparr>m_buffer = Some (brk m), m_capacity = new_capacity\<rparr>"
    and "m_size this' = m_size this"
    and "elements this' m' = elements this m"
proof -
  from big have nz: "new_capacity \<noteq> 0" by simp
  let ?L = "(new_capacity * sizeof_T env mod size_t_range) div sizeof_T env"
  let ?n = "m_size this"
  from run big obtain new_data m1 m2 m3 where
    alloc: "RawMemory_ctor env new_capacity m = (Inr new_data, m1)" and
    reloc: "InitializeDataUsingOtherData env (GetAddress (m_data this)) (GetAddress new_data)
              ?n m1 = (Inr (), m2)" and
    destr: "destroy_n (GetAddress (m_data this)) ?n m2 = (Inr (), m3)" and
    freed: "RawMemory_dtor (m_data this) m3 = (Inr (), m')" and
    this': "this' = this\<lparr>m_data := new_data\<rparr>"
    by (auto simp: Reserve_def RawMemory_Capacity_def member_Inr_iff bind_Inr_iff
        cleanup_rethrow_Inr_iff RawMemory_Swap_eq)
  note new = RawMemory_ctor_Inr(1) [OF alloc] RawMemory_ctor_Inr(3) [OF alloc nz]
  let ?b = "brk m"
  show d: "m_data this' = \<lparr>m_buffer = Some ?b, m_capacity = new_capacity\<rparr>"
    using new this' by simp
  show s: "m_size this' = m_size this"
    using this' by simp
  show "elements this' m' = elements this m"
  proof (cases "m_buffer (m_data this)")
    case None
    with valid_None [OF v] s show ?thesis by (simp add: elements_empty)
  next
    case (Some a)
    from valid_Some [OF v Some] obtain A where
      A: "heap m a = Some A" "length A = m_capacity (m_data this)"
         "list_all (\<lambda>s. s \<noteq> None) (take ?n A)" "a \<noteq> ?b" .
    have a1: "heap m1 a = Some A" and b1: "heap m1 ?b = Some (replicate ?L None)"
      using new A by auto
    have reloc': "InitializeDataUsingOtherData env (Some a, 0) (Some ?b, 0) ?n m1 = (Inr (), m2)"
      using reloc new Some by (simp add: GetAddress_def)
    note R = InitializeDataUsingOtherData_Inr [OF reloc' A(4) a1 b1]
    have le: "?n \<le> length A" using valid_facts(2) [OF v] A(2) by simp
    have b2: "heap m2 ?b = Some (take ?n A @ drop ?n (replicate ?L None))"
      using R(1) by simp
    have "heap m3 ?b = heap m2 ?b"
      using destroy_n_frame [OF destr, of ?b] A(4) Some by (simp add: GetAddress_def)
    moreover from freed Some have "heap m' = (heap m3)(a := None)"
      by (auto simp: RawMemory_dtor_Inr_iff)
    ultimately have "heap m' ?b = Some (take ?n A @ drop ?n (replicate ?L None))"
      using b2 A(4) by simp
    with d s le have "elements this' m' = map the (take ?n A)"
      by (simp add: elements_def block_of_def)
    also have "\<dots> = elements this m"
      using Some A(1) by (simp add: elements_Some)
    finally show ?thesis .
  qed
qed

lemma Reserve_small:
  "new_capacity \<le> m_capacity (m_data this) \<Longrightarrow> Reserve env new_capacity this m = (Inr (), this, m)"
  by (simp add: Reserve_def RawMemory_Capacity_def)

lemma Resize_grow_Inr:
  assumes big: "m_capacity (m_data this) < new_size"
    and inv: "m_size this \<le> m_capacity (m_data this)"
    and run: "Resize env new_size this m = (Inr u, this', m')"
  shows "m_capacity (m_data this') = new_size \<and> m_size this' = new_size"
proof -
  from run big inv obtain this1 m1 where
    res: "Reserve env new_size this m = (Inr (), this1, m1)" and
    rest: "member this1
             (bind (RawMemory_plus (m_data this1) (m_size this1)) (\<lambda>p.
              bind (uninitialized_value_construct_n env p (new_size - m_size this1)) (\<lambda>_ m2.
              (Inr ((), this1\<lparr>m_size := new_size\<rparr>), m2)))) m1 = (Inr u, this', m')"
    by (auto simp: Resize_def split: if_splits prod.splits sum.splits
        dest!: member_Inr_iff [THEN iffD1])
  from res big have "m_capacity (m_data this1) = new_size"
    by (auto simp: Reserve_def RawMemory_Capacity_def member_Inr_iff bind_Inr_iff
        cleanup_rethrow_Inr_iff RawMemory_Swap_eq dest: RawMemory_ctor_Inr(1))
  moreover from rest have "this' = this1\<lparr>m_size := new_size\<rparr>"
    by (auto simp: member_Inr_iff bind_Inr_iff)
  ultimately show ?thesis by simp
qed

lemma Vector_copy_Inr:
  assumes v: "valid env other m"
    and run: "Vector_copy env other m = (Inr this, m')"
  shows "m_size this = m_size other"
    and "m_capacity (m_data this) = m_size other"
    and "elements this m' = elements other m"
    and "elements other m' = elements other m"
proof -
  let ?n = "m_size other"
  let ?L = "(?n * sizeof_T env mod size_t_range) div sizeof_T env"
  from run obtain d m1 where
    alloc: "RawMemory_ctor env ?n m = (Inr d, m1)" and
    copy: "uninitialized_copy_n env (GetAddress (m_data other)) ?n (GetAddress d) m1 = (Inr (), m')"
    and built: "this = \<lparr>m_data = d, m_size = ?n\<rparr>"
    by (auto simp: Vector_copy_def bind_Inr_iff cleanup_rethrow_Inr_iff)
  show "m_size this = ?n" using built by simp
  show "m_capacity (m_data this) = ?n" using built RawMemory_ctor_Inr(1) [OF alloc] by simp
  show "elements this m' = elements other m" "elements other m' = elements other m"
  proof (atomize (full), cases "?n = 0")
    case True
    with built show "elements this m' = elements other m \<and> elements other m' = elements other m"
      by (simp add: elements_empty)
  next
    case False
    then have pos: "0 < ?n" by simp
    from valid_None(1) [OF v] False obtain a where Some: "m_buffer (m_data other) = Some a"
      by (cases "m_buffer (m_data other)") auto
    from valid_Some [OF v Some] obtain A where
      A: "heap m a = Some A" "length A = m_capacity (m_data other)"
         "list_all (\<lambda>s. s \<noteq> None) (take ?n A)" "a \<noteq> brk m" .
    note new = RawMemory_ctor_Inr(3) [OF alloc False]
    have a1: "heap m1 a = Some A" and b1: "heap m1 (brk m) = Some (replicate ?L None)"
      using new A by auto
    have copy': "uninitialized_copy_n env (Some a, 0) ?n (Some (brk m), 0) m1 = (Inr (), m')"
      using copy new Some by (simp add: GetAddress_def)
    from uninitialized_copy_n_Inr [OF copy' A(4) a1 b1]
    have h: "heap m' = (heap m1)(brk m \<mapsto> take ?n A @ drop ?n (replicate ?L None))"
      by simp
    have le: "?n \<le> length A" using valid_facts(2) [OF v] A(2) by simp
    have "elements this m' = map the (take ?n A)"
      using h built new le by (simp add: elements_def block_of_def)
    moreover have "elements other m' = map the (take ?n A)"
      using h a1 Some A(4) by (simp add: elements_def block_of_def)
    moreover have "elements other m = map the (take ?n A)"
      using Some A(1) by (simp add: elements_Some)
    ultimately show "elements this m' = elements other m \<and> elements other m' = elements other m"
      by simp
  qed
qed

lemma InitializeDataUsingOtherData_source:
  assumes "InitializeDataUsingOtherData env (Some a, i) (Some b, j) n m = (Inr u, m')"
    and "a \<noteq> b" and "heap m a = Some A" and "heap m b = Some B"
  shows "heap m' a = Some
     (if is_nothrow_move_constructible env \<or> \<not> is_copy_constructible env
      then take i A @ map (map_option (moved_from env)) (take n (drop i A)) @ drop (i + n) A
      else A)"
  using assms uninitialized_copy_n_Inr [of env a i n b j m u m' A B]
    uninitialized_move_n_Inr [of env a i n b j m u m' A B]
  by (auto simp: InitializeDataUsingOtherData_def split: if_splits)

lemma valid_full_vector: "0 < sizeof_T env \<Longrightarrow> sizeof_T env \<le> 8 \<Longrightarrow> valid env full_vector two_elements"
  by (auto simp: valid_def full_vector_def two_elements_def size_t_range_def)

lemma nth_at_length: "length xs = k \<Longrightarrow> (xs @ x # ys) ! k = x"
  by auto

lemma nth_at_Suc_length: "length xs = k \<Longrightarrow> (xs @ x # y # ys) ! Suc k = y"
  by (auto simp: nth_append)

lemma upd_at_length: "length xs = k \<Longrightarrow> (xs @ x # ys)[k := v] = xs @ v # ys"
  by auto

lemma upd_at_Suc_length: "length xs = k \<Longrightarrow> (xs @ x # y # ys)[Suc k := v] = xs @ x # v # ys"
  by (auto simp: list_update_append)

lemma T_move_assign_Inr:
  assumes "T_move_assign env (Some a, k) (Some a, l) m = (Inr u, m')"
    and "heap m a = Some A"
  shows "\<exists>x. A ! k = Some x \<and> k < length A \<and> l < length A \<and> A ! l \<noteq> None
    \<and> heap m' = (heap m)(a \<mapsto> A[l := Some x, k := Some (moved_from env x)])
    \<and> brk m' = brk m"
  using assms
  by (auto simp: T_move_assign_def bind_Inr_iff load_Inr_iff set_value_Inr_iff may_throw_def
      split: if_splits)

lemma move_backward_loop_shift:
  assumes "move_backward_loop env (Some a, i) c (Some a, Suc i) m = (Inr u, m')"
    and "heap m a = Some (P @ map Some ys @ s # R)"
    and "length P = i" and "length ys = c"
  shows "heap m' = (heap m)(a \<mapsto>
           (if c = 0 then P @ s # R
            else P @ Some (moved_from env (hd ys)) # map Some ys @ R))"
  using assms
proof (induction c arbitrary: ys s R m)
  case 0
  then show ?case by (auto simp: fun_upd_idem)
next
  case (Suc c)
  from Suc.prems(4) obtain ys' y where ys: "ys = ys' @ [y]" "length ys' = c"
    by (cases ys rule: rev_cases) auto
  define P' where "P' = P @ map Some ys'"
  have len: "length P' = i + c" using Suc.prems(3) ys by (simp add: P'_def)
  have blk: "heap m a = Some (P' @ Some y # s # R)"
    using Suc.prems(2) ys by (simp add: P'_def)
  from Suc.prems(1) obtain m1 where
    step: "T_move_assign env (Some a, i + c) (Some a, Suc (i + c)) m = (Inr (), m1)" and
    rest: "move_backward_loop env (Some a, i) c (Some a, Suc i) m1 = (Inr u, m')"
    by (auto simp: bind_Inr_iff)
  from T_move_assign_Inr [OF step blk] obtain x where
    x: "(P' @ Some y # s # R) ! (i + c) = Some x" and
    h: "heap m1 = (heap m)(a \<mapsto> (P' @ Some y # s # R)
          [Suc (i + c) := Some x, i + c := Some (moved_from env x)])"
    by blast
  from x len have "x = y" by (simp add: nth_at_length)
  with h len have "heap m1 = (heap m)(a \<mapsto> P' @ Some (moved_from env y) # Some y # R)"
    by (simp add: upd_at_length upd_at_Suc_length)
  then have m1: "heap m1 = (heap m)(a \<mapsto> P @ map Some ys' @ Some (moved_from env y) # Some y # R)"
    by (simp add: P'_def)
  then have blk1: "heap m1 a = Some (P @ map Some ys' @ Some (moved_from env y) # Some y # R)"
    by simp
  from Suc.IH [OF rest blk1 Suc.prems(3) ys(2)]
  have "heap m' = (heap m1)(a \<mapsto>
           (if c = 0 then P @ Some (moved_from env y) # Some y # R
            else P @ Some (moved_from env (hd ys')) # map Some ys' @ Some y # R))" .
  then show ?case
    using ys by (cases ys') (simp_all add: m1)
qed

lemma move_loop_shift:
  assumes "move_loop env (Some a, Suc i) c (Some a, i) m = (Inr u, m')"
    and "heap m a = Some (P @ s # map Some ys @ R)"
    and "length P = i" and "length ys = c"
  shows "heap m' = (heap m)(a \<mapsto>
           (if c = 0 then P @ s # R
            else P @ map Some ys @ Some (moved_from env (last ys)) # R))"
  using assms
proof (induction c arbitrary: i P ys s m)
  case 0
  then show ?case by (auto simp: fun_upd_idem)
next
  case (Suc c)
  from Suc.prems(4) obtain y ys' where ys: "ys = y # ys'" "length ys' = c"
    by (cases ys) auto
  have blk: "heap m a = Some (P @ s # Some y # map Some ys' @ R)"
    using Suc.prems(2) ys by simp
  from Suc.prems(1) obtain m1 where
    step: "T_move_assign env (Some a, Suc i) (Some a, i) m = (Inr (), m1)" and
    rest: "move_loop env (Some a, Suc (Suc i)) c (Some a, Suc i) m1 = (Inr u, m')"
    by (auto simp: bind_Inr_iff)
  from T_move_assign_Inr [OF step blk] obtain x where
    x: "(P @ s # Some y # map Some ys' @ R) ! Suc i = Some x" and
    h: "heap m1 = (heap m)(a \<mapsto> (P @ s # Some y # map Some ys' @ R)
          [i := Some x, Suc i := Some (moved_from env x)])"
    by blast
  from x Suc.prems(3) have "x = y" by (simp add: nth_at_Suc_length)
  with h Suc.prems(3)
  have m1: "heap m1 = (heap m)(a \<mapsto> P @ Some y # Some (moved_from env y) # map Some ys' @ R)"
    by (simp add: upd_at_length upd_at_Suc_length)
  then have blk1: "heap m1 a = Some ((P @ [Some y]) @ Some (moved_from env y) # map Some ys' @ R)"
    by simp
  have len1: "length (P @ [Some y]) = Suc i" using Suc.prems(3) by simp
  from Suc.IH [OF rest blk1 len1 ys(2)]
  have "heap m' = (heap m1)(a \<mapsto>
           (if c = 0 then (P @ [Some y]) @ Some (moved_from env y) # R
            else (P @ [Some y]) @ map Some ys' @ Some (moved_from env (last ys')) # R))" .
  then show ?case
    using ys by (cases ys') (simp_all add: m1)
qed

lemma validI:
  assumes "0 < sizeof_T env" and "m_size this \<le> m_capacity (m_data this)"
    and "m_capacity (m_data this) * sizeof_T env < size_t_range"
    and "\<forall>a. brk m \<le> a \<longrightarrow> heap m a = None"
    and "m_buffer (m_data this) = Some a" and "heap m a = Some blk"
    and "length blk = m_capacity (m_data this)"
    and "list_all (\<lambda>s. s \<noteq> None) (take (m_size this) blk)"
  shows "valid env this m"
  using assms by (simp add: valid_def)

lemma valid_fresh: "valid env this m \<Longrightarrow> \<forall>a. brk m \<le> a \<longrightarrow> heap m a = None"
  by (simp add: valid_def)

lemma live_prefix:
  assumes "list_all (\<lambda>s. s \<noteq> None) (take n A)"
  shows "A = map Some (map the (take n A)) @ drop n A"
proof -
  from assms have "map Some (map the (take n A)) = take n A"
    by (induction "take n A" arbitrary: n A) (auto simp: list_all_iff map_idI)
  then show ?thesis by simp
qed

lemma live_prefix_map: "list_all (\<lambda>s. s \<noteq> None) (map Some xs)"
  by (simp add: list_all_iff)

lemma same_shape_brk: "same_shape m m' \<Longrightarrow> brk m' = brk m"
  by (simp add: same_shape_def)

lemma Erase_Inr:
  assumes v: "valid env this m"
    and run: "Erase env (b, i) this m = (Inr r, this', m')"
  shows "b = m_buffer (m_data this)" and "i < m_size this"
    and "m_size this' = m_size this - 1" and "m_data this' = m_data this"
    and "r = (m_buffer (m_data this), i)"
    and "elements this' m' = take i (elements this m) @ drop (Suc i) (elements this m)"
    and "valid env this' m'"
proof -
  let ?n = "m_size this"
  define pos where "pos = (b, i)"
  note run = run [folded pos_def]
  from run obtain m1 this2 m2 where
    x: "bind (ptr_le (Vector_begin this) pos) (\<lambda>ge.
         bind (Vector_end this) (\<lambda>e.
         bind (ptr_less pos e) (\<lambda>lt.
         bind (assert (ge \<and> lt)) (\<lambda>_.
         bind (RawMemory_plus (m_data this) (ptr_diff pos (Vector_begin this))) (\<lambda>p.
         bind (Vector_end this) (\<lambda>e1.
         bind (RawMemory_plus (m_data this) (ptr_diff pos (Vector_begin this))) (\<lambda>d.
         std_move env (ptr_add p 1) e1 d))))))) m = (Inr (), m1)" and
    pb: "PopBack this m1 = (Inr (), this2, m2)" and
    rp: "RawMemory_plus (m_data this2) (ptr_diff pos (Vector_begin this)) m2 = (Inr r, m')" and
    eq: "this' = this2"
    unfolding Erase_def by (auto split: prod.splits sum.splits)
  from x have base: "m_buffer (m_data this) = b" and lt: "i < ?n" and
    sm: "std_move env (m_buffer (m_data this), Suc i) (m_buffer (m_data this), ?n)
           (m_buffer (m_data this), i) m = (Inr (), m1)"
    by (auto simp: bind_Inr_iff ptr_le_Inr_iff ptr_less_Inr_iff Vector_end_def
        RawMemory_plus_Inr_iff assert_Inr_iff Vector_begin_def GetAddress_def ptr_diff_def
        pos_def)
  from sm base lt have
    moved: "move_loop env (b, Suc i) (?n - Suc i) (b, i) m = (Inr (), m1)"
    by (simp add: std_move_def split: if_splits)
  from pb base have
    destroyed: "destroy_at (b, ?n - 1) m1 = (Inr (), m2)" and
    this2: "this2 = this\<lparr>m_size := ?n - 1\<rparr>"
    by (auto simp: PopBack_def member_Inr_iff bind_Inr_iff assert_Inr_iff RawMemory_index_Inr_iff)
  from rp this2 eq base have r: "r = (b, i)" and "m' = m2" and
    this': "this' = this\<lparr>m_size := ?n - 1\<rparr>"
    by (auto simp: RawMemory_plus_Inr_iff ptr_diff_def Vector_begin_def GetAddress_def pos_def)
  note destroyed = destroyed [folded \<open>m' = m2\<close>]
  show "b = m_buffer (m_data this)" using base by simp
  show "i < ?n" by (rule lt)
  show "m_size this' = ?n - 1" "m_data this' = m_data this" using this' by simp_all
  show "r = (m_buffer (m_data this), i)" using r base by simp
  from lt valid_facts(2) [OF v] valid_None(2) [OF v] obtain a where
    Some: "m_buffer (m_data this) = Some a"
    by (cases "m_buffer (m_data this)") auto
  from valid_Some [OF v Some] obtain A where
    A: "heap m a = Some A" "length A = m_capacity (m_data this)"
       "list_all (\<lambda>s. s \<noteq> None) (take ?n A)" "a \<noteq> brk m" .
  define xs where "xs = map the (take ?n A)"
  define T where "T = drop ?n A"
  have le: "?n \<le> length A" using valid_facts(2) [OF v] A(2) by simp
  have lxs: "length xs = ?n" using le by (simp add: xs_def)
  have el: "elements this m = xs" using Some A(1) by (simp add: elements_Some xs_def)
  define pre where "pre = take i xs"
  define post where "post = drop (Suc i) xs"
  have split: "xs = pre @ xs ! i # post"
    using lt lxs by (simp add: pre_def post_def id_take_nth_drop [symmetric])
  have lpre: "length (map Some pre) = i" using lt lxs by (simp add: pre_def)
  have lpost: "length post = ?n - Suc i" using lxs by (simp add: post_def)
  have "A = map Some xs @ T"
    using live_prefix [OF A(3)] by (simp add: xs_def T_def)
  then have blk: "heap m a = Some (map Some pre @ Some (xs ! i) # map Some post @ T)"
    using A(1) split by (metis append_Cons append_assoc list.simps(9) map_append)
  have moved': "move_loop env (Some a, Suc i) (?n - Suc i) (Some a, i) m = (Inr (), m1)"
    using moved base Some by simp
  note h1 = move_loop_shift [OF moved' blk lpre lpost]
  have pos1: "b = Some a" using base Some by simp
  have idx: "?n - 1 = length (map Some pre @ map Some post)"
    using lpre lpost lt by simp
  have h': "heap m' = (heap m)(a \<mapsto> map Some (pre @ post) @ None # T)"
  proof (cases "?n - Suc i = 0")
    case True
    then have "post = []" using lpost by simp
    with h1 True have "heap m1 = (heap m)(a \<mapsto> map Some pre @ Some (xs ! i) # T)"
      by simp
    moreover from True lt have "?n - 1 = i" by simp
    ultimately show ?thesis
      using destroyed pos1 lpre \<open>post = []\<close>
      by (auto simp: destroy_at_Inr_iff upd_at_length)
  next
    case False
    define Q where "Q = map Some pre @ map Some post"
    have lQ: "length Q = ?n - 1" using idx by (simp add: Q_def)
    from False h1 have "heap m1 = (heap m)(a \<mapsto> Q @ Some (moved_from env (last post)) # T)"
      by (simp add: Q_def)
    with destroyed pos1 lQ have "heap m' = (heap m)(a \<mapsto> Q @ None # T)"
      by (auto simp: destroy_at_Inr_iff upd_at_length)
    then show ?thesis by (simp add: Q_def)
  qed
  have ln: "length (pre @ post) = ?n - 1" using idx by simp
  have d': "m_buffer (m_data this') = Some a" "m_size this' = ?n - 1"
    "m_capacity (m_data this') = m_capacity (m_data this)"
    using this' Some by simp_all
  have "elements this' m' = pre @ post"
    using h' d' ln by (simp add: elements_def block_of_def)
  then show "elements this' m' = take i (elements this m) @ drop (Suc i) (elements this m)"
    by (simp add: el pre_def post_def)
  have brk: "brk m' = brk m"
  proof -
    have "same_shape m m1"
      using keepsD [OF keeps_move_loop moved, of "{b}"] by simp
    moreover have "same_shape m1 m'"
      using destroy_at_frame [OF destroyed] by simp
    ultimately show ?thesis by (simp add: same_shape_def)
  qed
  have lT: "length T = m_capacity (m_data this) - ?n" using A(2) by (simp add: T_def)
  show "valid env this' m'"
  proof (rule validI [where a = a and blk = "map Some (pre @ post) @ None # T"])
    show "0 < sizeof_T env" by (rule valid_facts(1) [OF v])
    show "m_size this' \<le> m_capacity (m_data this')"
      using d' valid_facts(2) [OF v] by simp
    show "m_capacity (m_data this') * sizeof_T env < size_t_range"
      using d' valid_facts(3) [OF v] by simp
    show "\<forall>a. brk m' \<le> a \<longrightarrow> heap m' a = None"
      using valid_fresh [OF v] brk h' A(1) by auto
    show "m_buffer (m_data this') = Some a" by (rule d')
    show "heap m' a = Some (map Some (pre @ post) @ None # T)" using h' by simp
    show "length (map Some (pre @ post) @ None # T) = m_capacity (m_data this')"
      using ln lT d' lt valid_facts(2) [OF v] by simp
    show "list_all (\<lambda>s. s \<noteq> None) (take (m_size this') (map Some (pre @ post) @ None # T))"
      using ln d' by (auto simp: list_all_iff)
  qed
qed

lemma T_make_Inr:
  "T_make env args m = (Inr x, m1) \<Longrightarrow> given args = Some y \<Longrightarrow>
     x = y \<and> heap m1 = heap m \<and> brk m1 = brk m"
  by (cases args)
    (auto simp: move_ctor_may_throw_def bind_Inr_iff may_throw_def split: if_splits)

lemma T_construct_Inr:
  assumes "T_construct env args (Some a, l) m = (Inr u, m')" and "heap m a = Some A"
    and "given args = Some x"
  shows "l < length A \<and> heap m' = (heap m)(a \<mapsto> A[l := Some x]) \<and> brk m' = brk m"
  using assms
  by (auto simp: T_construct_def bind_Inr_iff construct_at_Inr_iff dest!: T_make_Inr)

lemma T_construct_Inr_base:
  "T_construct env args p m = (Inr u, m') \<Longrightarrow> \<exists>a. fst p = Some a"
  by (auto simp: T_construct_def bind_Inr_iff construct_at_Inr_iff)

lemma T_move_construct_Inr:
  assumes "T_move_construct env (Some a, k) (Some a, l) m = (Inr u, m')"
    and "heap m a = Some A"
  shows "\<exists>x. A ! k = Some x \<and> k < length A \<and> l < length A
    \<and> heap m' = (heap m)(a \<mapsto> A[l := Some x, k := Some (moved_from env x)])
    \<and> brk m' = brk m"
  using assms
  by (auto simp: T_move_construct_Inr_iff load_Inr_iff construct_at_Inr_iff set_value_Inr_iff
      split: if_splits)

lemma T_move_assign_from_local_Inr:
  assumes "T_move_assign_from_local env x (Some a, l) m = (Inr u, m')"
    and "heap m a = Some A"
  shows "l < length A \<and> A ! l \<noteq> None \<and> heap m' = (heap m)(a \<mapsto> A[l := Some x])
    \<and> brk m' = brk m"
  using assms
  by (auto simp: T_move_assign_from_local_def bind_Inr_iff load_Inr_iff set_value_Inr_iff
      may_throw_def split: if_splits)

lemma T_make_Inr_general:
  assumes "T_make env args m = (Inr x, m1)"
  shows "argument_value args m = Some x \<and> heap m1 = heap (moved_out env args m)
         \<and> brk m1 = brk m"
  using assms
  by (cases args)
    (auto simp: argument_value_def moved_out_def move_ctor_may_throw_def bind_Inr_iff
      may_throw_def load_Inr_iff set_value_Inr_iff slot_of_def poke_def split: if_splits)

lemma given_argument_value:
  "given args = Some x \<Longrightarrow> argument_value args m = Some x \<and> moved_out env args m = m"
  by (cases args) (auto simp: argument_value_def moved_out_def)

lemma moved_out_brk [simp]: "brk (moved_out env args m) = brk m"
  by (auto simp: moved_out_def poke_def split: ctor_args.splits option.splits)

lemma moved_out_cases:
  "moved_out env args m = m
   \<or> (\<exists>a A k x. heap m a = Some A \<and> k < length A \<and> A ! k = Some x
        \<and> moved_out env args m = m\<lparr>heap := (heap m)(a \<mapsto> A[k := Some (moved_from env x)])\<rparr>)"
  by (auto simp: moved_out_def poke_def slot_of_def split: ctor_args.splits option.splits if_splits)

lemma live_update:
  assumes "list_all (\<lambda>s. s \<noteq> None) (take n A)"
  shows "list_all (\<lambda>s. s \<noteq> None) (take n (A[k := Some y]))"
  using assms by (auto simp: list_all_iff take_update_swap dest: in_set_takeD set_update_subset_insert [THEN subsetD])

lemma valid_moved_out:
  assumes v: "valid env this m"
  shows "valid env this (moved_out env args m)"
proof -
  from moved_out_cases [of env args m] show ?thesis
  proof
    assume "moved_out env args m = m"
    with v show ?thesis by simp
  next
    assume "\<exists>a A k x. heap m a = Some A \<and> k < length A \<and> A ! k = Some x
        \<and> moved_out env args m = m\<lparr>heap := (heap m)(a \<mapsto> A[k := Some (moved_from env x)])\<rparr>"
    then obtain a A k x where A: "heap m a = Some A" and
      eq: "moved_out env args m = m\<lparr>heap := (heap m)(a \<mapsto> A[k := Some (moved_from env x)])\<rparr>"
      by blast
    from v A show ?thesis
      unfolding eq valid_def
      by (auto simp: live_update simp del: not_None_eq split: option.splits)
  qed
qed

lemma valid_heap_cong:
  "heap m1 = heap m2 \<Longrightarrow> brk m1 = brk m2 \<Longrightarrow> valid env this m1 = valid env this m2"
  by (simp add: valid_def split: option.splits)

lemma elements_heap_cong: "heap m1 = heap m2 \<Longrightarrow> elements this m1 = elements this m2"
  by (simp add: elements_def block_of_def split: option.splits)

lemma moved_out_fresh_block:
  assumes fresh: "heap m bb = None"
    and h1: "heap m1 = (heap m)(bb \<mapsto> replicate c None)"
    and val: "argument_value args m1 = Some x"
  shows "argument_value args m = Some x
         \<and> heap (moved_out env args m1) = (heap (moved_out env args m))(bb \<mapsto> replicate c None)"
proof (cases args)
  case (MoveFrom p)
  with val obtain a A where p: "fst p = Some a" "heap m1 a = Some A" "snd p < length A"
    "A ! snd p = Some x"
    by (auto simp: argument_value_def slot_of_def split: option.splits if_splits)
  have ne: "a \<noteq> bb"
  proof
    assume "a = bb"
    with p h1 show False by auto
  qed
  with p h1 have A: "heap m a = Some A" by simp
  show ?thesis
    using MoveFrom p A ne h1
    by (auto simp: argument_value_def moved_out_def slot_of_def poke_def fun_eq_iff)
qed (use val h1 in \<open>simp_all add: argument_value_def moved_out_def\<close>)

lemma valid_capacity_bound:
  assumes "valid env this m"
  shows "m_capacity (m_data this) < size_t_range"
  using valid_facts(1,3) [OF assms] by (cases "sizeof_T env") auto

lemma T_construct_Inr_general:
  assumes run: "T_construct env args (Some a, l) m = (Inr u, m')"
    and tm: "\<And>y m1. T_make env args m = (Inr y, m1)
               \<Longrightarrow> y = x \<and> heap m1 = heap mo \<and> brk m1 = brk mo"
    and blk: "heap mo a = Some A"
  shows "l < length A \<and> heap m' = (heap mo)(a \<mapsto> A[l := Some x]) \<and> brk m' = brk mo"
proof -
  from run obtain y m1 where
    mk: "T_make env args m = (Inr y, m1)" and
    put: "construct_at (Some a, l) y m1 = (Inr u, m')"
    unfolding T_construct_def by (rule bind_InrE)
  from tm [OF mk] blk put show ?thesis
    by (auto simp: construct_at_Inr_iff)
qed

lemma EmplaceWithoutRealloc_core:
  assumes v: "valid env this mo"
    and room: "m_size this < m_capacity (m_data this)"
    and base: "b = m_buffer (m_data this)" and le: "i \<le> m_size this"
    and tm: "\<And>y m1. T_make env args m = (Inr y, m1)
               \<Longrightarrow> y = x \<and> heap m1 = heap mo \<and> brk m1 = brk mo"
    and run: "EmplaceWithoutRealloc env (b, i) args this m = (Inr (r, this'), m')"
  shows "this' = this\<lparr>m_size := Suc (m_size this)\<rparr>" and "r = (b, i)"
    and "elements this' m' = take i (elements this mo) @ x # drop i (elements this mo)"
    and "valid env this' m'" and "brk m' = brk mo"
proof -
  let ?n = "m_size this" and ?d = "m_data this"
  let ?x = "x"
  have nR: "Suc ?n < size_t_range"
    using valid_capacity_bound [OF v] room by simp
  let ?append = "bind (RawMemory_plus ?d ?n) (\<lambda>p. T_construct env args p)"
  let ?insert = "bind (T_make env args) (\<lambda>temp.
                 bind (RawMemory_plus ?d ?n) (\<lambda>p.
                 bind (RawMemory_index ?d (?n - 1)) (\<lambda>back.
                 bind (T_move_construct env back p) (\<lambda>_.
                 bind (RawMemory_plus ?d i) (\<lambda>first.
                 bind (RawMemory_plus ?d (?n - 1)) (\<lambda>lst.
                 bind (RawMemory_plus ?d ?n) (\<lambda>d_last.
                 bind (std_move_backward env first lst d_last) (\<lambda>_.
                 bind (RawMemory_index ?d i) (\<lambda>q.
                 T_move_assign_from_local env temp q)))))))))"
  from run base have
    body: "(if i = ?n then ?append else ?insert) m = (Inr (), m')" and
    this': "this' = this\<lparr>m_size := Suc ?n\<rparr>" and r: "r = (b, i)"
    using nR
    by (auto simp: EmplaceWithoutRealloc_def Let_def Vector_end_def ptr_diff_def
        Vector_begin_def GetAddress_def bind_Inr_iff [of "RawMemory_plus _ _"]
        bind_Inr_iff [of "If _ _ _"] RawMemory_plus_Inr_iff)
  show "this' = this\<lparr>m_size := Suc ?n\<rparr>" by (rule this')
  show "r = (b, i)" by (rule r)
  from room valid_None(2) [OF v] obtain a where
    Some: "m_buffer ?d = Some a"
    by (cases "m_buffer ?d") auto
  from valid_Some [OF v Some] obtain A where
    A: "heap mo a = Some A" "length A = m_capacity ?d"
       "list_all (\<lambda>s. s \<noteq> None) (take ?n A)" "a \<noteq> brk mo" .
  define xs where "xs = map the (take ?n A)"
  have lxs: "length xs = ?n" using room A(2) by (simp add: xs_def)
  have el: "elements this mo = xs" using Some A(1) by (simp add: elements_Some xs_def)
  from room A(2) obtain t T where T: "drop ?n A = t # T"
    by (cases "drop ?n A") auto
  have lT: "length T = m_capacity ?d - Suc ?n"
    using arg_cong [OF T, of length] A(2) by simp
  have blkA: "A = map Some xs @ t # T"
    using live_prefix [OF A(3)] T by (simp add: xs_def)
  have h': "heap m' = (heap mo)(a \<mapsto> map Some (take i xs @ ?x # drop i xs) @ T) \<and> brk m' = brk mo"
  proof (cases "i = ?n")
    case True
    with body have "T_construct env args (Some a, ?n) m = (Inr (), m')"
      using Some by (auto simp: bind_Inr_iff RawMemory_plus_Inr_iff)
    from T_construct_Inr_general [OF this tm A(1)] lxs True show ?thesis
      by (simp add: blkA upd_at_length)
  next
    case False
    with le have lt: "i < ?n" by simp
    from False body Some obtain m1 m2 m3 where
      made: "T_make env args m = (Inr ?x, m1)" and
      last: "T_move_construct env (Some a, ?n - 1) (Some a, ?n) m1 = (Inr (), m2)" and
      shift: "std_move_backward env (Some a, i) (Some a, ?n - 1) (Some a, ?n) m2 = (Inr (), m3)" and
      put: "T_move_assign_from_local env ?x (Some a, i) m3 = (Inr (), m')"
      by (auto simp: bind_Inr_iff RawMemory_plus_Inr_iff RawMemory_index_Inr_iff
          dest: tm)
    define pre where "pre = take i xs"
    define mid where "mid = take (?n - 1 - i) (drop i xs)"
    define y where "y = xs ! (?n - 1)"
    have dr: "drop i xs = mid @ [y]"
    proof -
      have ne: "drop i xs \<noteq> []" and nx: "xs \<noteq> []" using lt lxs by auto
      have "mid = butlast (drop i xs)"
        using lxs by (simp add: mid_def butlast_conv_take)
      moreover have "y = last (drop i xs)"
        using lt lxs nx by (simp add: y_def last_conv_nth)
      ultimately show ?thesis
        using append_butlast_last_id [OF ne] by simp
    qed
    have lmid: "length mid = ?n - 1 - i" using lxs lt by (simp add: mid_def)
    have lpre: "length (map Some pre) = i" using lt lxs by (simp add: pre_def)
    have xs: "xs = pre @ mid @ [y]"
      using append_take_drop_id [of i xs] dr by (simp add: pre_def)
    define Q where "Q = map Some pre @ map Some mid"
    have lQ: "length Q = ?n - 1" using lpre lmid lt by (simp add: Q_def)
    have blk1: "heap m1 a = Some (Q @ Some y # t # T)"
      using tm [OF made] A(1) blkA xs by (simp add: Q_def)
    have n1: "?n = Suc (?n - 1)" using lt by simp
    from T_move_construct_Inr [OF last blk1] obtain z where
      z: "(Q @ Some y # t # T) ! (?n - 1) = Some z" and
      h2: "heap m2 = (heap m1)(a \<mapsto> (Q @ Some y # t # T)
             [?n := Some z, ?n - 1 := Some (moved_from env z)])" and
      b2: "brk m2 = brk m1"
      by blast
    from z lQ have "z = y" by (simp add: nth_at_length)
    moreover have "(Q @ Some y # t # T)[Suc (?n - 1) := Some y, ?n - 1 := Some (moved_from env y)]
        = Q @ Some (moved_from env y) # Some y # T"
      using lQ by (simp add: upd_at_length upd_at_Suc_length)
    ultimately have "heap m2 = (heap m1)(a \<mapsto> Q @ Some (moved_from env y) # Some y # T)"
      using h2 n1 by simp
    then have blk2: "heap m2 a = Some (map Some pre @ map Some mid @ Some (moved_from env y) # Some y # T)"
      by (simp add: Q_def)
    have loop: "move_backward_loop env (Some a, i) (?n - 1 - i) (Some a, Suc i) m2 = (Inr (), m3)"
      using shift lt by (auto simp: std_move_backward_def split: if_splits)
    from move_backward_loop_shift [OF loop blk2 lpre lmid]
    have blk3: "heap m3 a = Some (map Some pre @
        (if ?n - 1 - i = 0 then Some (moved_from env y) # Some y # T
         else Some (moved_from env (hd mid)) # map Some mid @ Some y # T))"
      by simp
    have b3: "brk m3 = brk m2"
      using keepsD [OF keeps_move_backward_loop loop, of "{Some a}"] by (simp add: same_shape_def)
    from T_move_assign_from_local_Inr [OF put blk3] lpre
    have "heap m' = (heap m3)(a \<mapsto> map Some pre @
        (if ?n - 1 - i = 0 then Some ?x # Some y # T
         else Some ?x # map Some mid @ Some y # T))" and b4: "brk m' = brk m3"
      by (simp_all add: upd_at_length)
    moreover have "?n - 1 - i = 0 \<Longrightarrow> mid = []" using lmid by simp
    ultimately have "heap m' = (heap m3)(a \<mapsto> map Some (pre @ ?x # mid @ [y]) @ T)"
      by (cases "?n - 1 - i = 0") simp_all
    moreover have "heap m3 c = heap mo c" if "c \<noteq> a" for c
    proof -
      have "heap m3 c = heap m2 c"
        using keepsD [OF keeps_move_backward_loop loop, of "{Some a}"] that
        by (simp add: unchanged_off_def)
      also have "\<dots> = heap m1 c" using h2 that by simp
      also have "\<dots> = heap mo c" using tm [OF made] by simp
      finally show ?thesis .
    qed
    ultimately have "heap m' = (heap mo)(a \<mapsto> map Some (pre @ ?x # mid @ [y]) @ T)"
      by (auto simp: fun_eq_iff)
    moreover have "brk m' = brk mo"
      using b4 b3 b2 tm [OF made] by simp
    ultimately show ?thesis
      using dr by (simp add: pre_def)
  qed
  define ys where "ys = take i xs @ ?x # drop i xs"
  have lys: "length ys = Suc ?n" using le lxs by (simp add: ys_def)
  have hy: "heap m' = (heap mo)(a \<mapsto> map Some ys @ T)" and bk: "brk m' = brk mo"
    using h' by (simp_all add: ys_def)
  have d': "m_buffer (m_data this') = Some a" "m_size this' = Suc ?n"
    "m_capacity (m_data this') = m_capacity ?d"
    using this' Some by simp_all
  have "elements this' m' = ys"
    using hy d' lys by (simp add: elements_def block_of_def)
  then show "elements this' m' = take i (elements this mo) @ ?x # drop i (elements this mo)"
    by (simp add: el ys_def)
  show "brk m' = brk mo" by (rule bk)
  show "valid env this' m'"
  proof (rule validI [where a = a and blk = "map Some ys @ T"])
    show "0 < sizeof_T env" by (rule valid_facts(1) [OF v])
    show "m_size this' \<le> m_capacity (m_data this')" using d' room by simp
    show "m_capacity (m_data this') * sizeof_T env < size_t_range"
      using d' valid_facts(3) [OF v] by simp
    show "\<forall>a. brk m' \<le> a \<longrightarrow> heap m' a = None"
      using valid_fresh [OF v] hy bk A(1) by auto
    show "m_buffer (m_data this') = Some a" by (rule d')
    show "heap m' a = Some (map Some ys @ T)" using hy by simp
    show "length (map Some ys @ T) = m_capacity (m_data this')"
      using lys lT d' room by simp
    show "list_all (\<lambda>s. s \<noteq> None) (take (m_size this') (map Some ys @ T))"
      using lys d' by (auto simp: list_all_iff)
  qed
qed

lemma EmplaceWithRealloc_unfold:
  assumes run: "EmplaceWithRealloc env (b, i) args this m = (Inr (r, this'), m')"
  obtains nd m1 m2 m3 m4 m5 where
    "RawMemory_ctor env (if m_size this = 0 then 1 else m_size this * 2 mod size_t_range) m
       = (Inr nd, m1)"
    "T_construct env args (m_buffer nd, i) m1 = (Inr (), m2)"
    "InitializeDataUsingOtherData env (m_buffer (m_data this), 0) (m_buffer nd, 0) i m2
       = (Inr (), m3)"
    "InitializeDataUsingOtherData env (m_buffer (m_data this), i) (m_buffer nd, Suc i)
       (m_size this - i) m3 = (Inr (), m4)"
    "destroy_n (m_buffer (m_data this), 0) (m_size this) m4 = (Inr (), m5)"
    "RawMemory_dtor (m_data this) m5 = (Inr (), m')"
    "r = (m_buffer nd, i)"
    "this' = \<lparr>m_data = nd, m_size = Suc (m_size this) mod size_t_range\<rparr>"
  using run
  by (auto simp: EmplaceWithRealloc_def Let_def bind_Inr_iff cleanup_rethrow_Inr_iff
      RawMemory_plus_Inr_iff RawMemory_Swap_eq GetAddress_def ptr_diff_def Vector_begin_def)

lemma allocated_slots_le: "(c * z mod R) div z \<le> (c::nat)"
proof (cases "z = 0")
  case True
  then show ?thesis by simp
next
  case False
  have "(c * z mod R) div z \<le> (c * z) div z"
    by (intro div_le_mono) simp
  with False show ?thesis by simp
qed

lemma same_shape_length:
  "same_shape m m' \<Longrightarrow> heap m a = Some A \<Longrightarrow> \<exists>A'. heap m' a = Some A' \<and> length A' = length A"
  by (auto simp: same_shape_def dest!: spec [of _ a] elim: map_option_eq_Some [THEN iffD1, elim_format])

lemma T_construct_room:
  assumes run: "T_construct env args (Some a, l) m = (Inr u, m')" and blk: "heap m a = Some A"
  shows "l < length A"
proof -
  from run obtain x m1 where
    mk: "T_make env args m = (Inr x, m1)" and
    put: "construct_at (Some a, l) x m1 = (Inr u, m')"
    unfolding T_construct_def by (rule bind_InrE)
  have "keeps (moved_source args) (T_make env args)"
    by (rule keeps_T_make) simp
  from keepsD [OF this mk] have "same_shape m m1" by simp
  from same_shape_length [OF this blk] obtain A1 where
    "heap m1 a = Some A1" "length A1 = length A" by auto
  with put show ?thesis by (auto simp: construct_at_Inr_iff)
qed

lemma EmplaceWithRealloc_room:
  assumes run: "EmplaceWithRealloc env (b, i) args this m = (Inr (r, this'), m')"
    and le: "i \<le> m_size this"
  shows "Suc (m_size this) \<le> m_capacity (m_data this')"
    and "m_size this' \<le> Suc (m_size this)"
    and "m_size this \<noteq> 0 \<Longrightarrow> m_size this < size_t_range \<Longrightarrow>
           m_capacity (m_data this') = 2 * m_size this"
    and "m_size this = 0 \<Longrightarrow> m_capacity (m_data this') = 1"
    and "Suc (m_size this)
           \<le> (m_capacity (m_data this') * sizeof_T env mod size_t_range) div sizeof_T env"
    and "m_buffer (m_data this') = Some (brk m)"
proof -
  let ?n = "m_size this"
  let ?c = "if ?n = 0 then 1 else ?n * 2 mod size_t_range"
  let ?L = "(?c * sizeof_T env mod size_t_range) div sizeof_T env"
  from EmplaceWithRealloc_unfold [OF run] obtain nd m1 m2 m3 m4 m5 where
    alloc: "RawMemory_ctor env ?c m = (Inr nd, m1)" and
    constr: "T_construct env args (m_buffer nd, i) m1 = (Inr (), m2)" and
    pre: "InitializeDataUsingOtherData env (m_buffer (m_data this), 0) (m_buffer nd, 0) i m2
       = (Inr (), m3)" and
    suf: "InitializeDataUsingOtherData env (m_buffer (m_data this), i) (m_buffer nd, Suc i)
       (?n - i) m3 = (Inr (), m4)" and
    this': "this' = \<lparr>m_data = nd, m_size = Suc ?n mod size_t_range\<rparr>"
    by metis
  from T_construct_Inr_base [OF constr] obtain a where a: "m_buffer nd = Some a" by auto
  have nz: "?c \<noteq> 0"
  proof
    assume "?c = 0"
    from RawMemory_ctor_Inr(2) [OF alloc this] a show False by simp
  qed
  note new = RawMemory_ctor_Inr(1) [OF alloc] RawMemory_ctor_Inr(3) [OF alloc nz]
  have b1: "heap m1 a = Some (replicate ?L None)" and ab: "a = brk m"
    using new a by auto
  from T_construct_room [OF constr [unfolded a] b1] have iL: "i < ?L" by simp
  have "keeps (insert (m_buffer nd) (moved_source args)) (T_construct env args (m_buffer nd, i))"
    by (rule keeps_T_construct) auto
  from keepsD [OF this constr] have s12: "same_shape m1 m2" by simp
  have s23: "same_shape m2 m3"
    using keepsD [OF keeps_InitializeDataUsingOtherData pre,
        of "{m_buffer nd, m_buffer (m_data this)}"] by simp
  from same_shape_length [OF same_shape_trans [OF s12 s23] b1]
  obtain B3 where B3: "heap m3 a = Some B3" "length B3 = ?L" by auto
  have room: "Suc ?n \<le> ?L"
  proof (cases "i = ?n")
    case True
    with iL show ?thesis by simp
  next
    case False
    with le have "0 < ?n - i" by simp
    from InitializeDataUsingOtherData_room [OF suf this] a B3 le show ?thesis by auto
  qed
  have Lc: "?L \<le> ?c" by (rule allocated_slots_le)
  show "Suc ?n \<le> m_capacity (m_data this')"
    using room Lc new this' by simp
  show "m_size this' \<le> Suc ?n"
    using this' by simp
  show "m_capacity (m_data this') = 2 * ?n" if "?n \<noteq> 0" "?n < size_t_range"
  proof -
    from that room Lc have c: "Suc ?n \<le> ?n * 2 mod size_t_range" by simp
    have "?n * 2 < size_t_range"
    proof (rule ccontr)
      assume "\<not> ?n * 2 < size_t_range"
      then have "?n * 2 mod size_t_range = ?n * 2 - size_t_range"
        using that(2) by (simp add: mod_if)
      with c that(2) show False by simp
    qed
    then show ?thesis using new this' that by simp
  qed
  show "m_capacity (m_data this') = 1" if "?n = 0"
    using new this' that by simp
  show "Suc ?n \<le> (m_capacity (m_data this') * sizeof_T env mod size_t_range) div sizeof_T env"
    using room new this' by simp
  show "m_buffer (m_data this') = Some (brk m)"
    using this' a ab by simp
qed

lemma no_wrap:
  assumes z: "0 < (z::nat)" and old: "n * z < R"
    and room: "Suc n \<le> (c * z mod R) div z"
    and c: "c = (if n = 0 then 1 else 2 * n)"
  shows "c * z < R"
proof (rule ccontr)
  assume wrap: "\<not> c * z < R"
  from old have R: "0 < R" by simp
  from z room have k: "Suc n * z \<le> c * z mod R"
    by (simp only: less_eq_div_iff_mult_less_eq)
  define A where "A = n * z"
  have k': "A + z \<le> c * z mod R" using k by (simp add: A_def)
  show False
  proof (cases "n = 0")
    case True
    with c have cz: "c * z = z" by simp
    have "z mod R < R" using R by (rule mod_less_divisor)
    with k' wrap show False unfolding cz by linarith
  next
    case False
    with c have c2: "c * z = A + A" by (simp add: A_def)
    from wrap have ge: "R \<le> A + A" unfolding c2 by simp
    from old have lt: "A + A - R < R" unfolding A_def by linarith
    have "(A + A) mod R = (A + A - R) mod R" using ge by (rule le_mod_geq)
    also have "\<dots> = A + A - R" using lt by (rule mod_less)
    finally show False using k' old ge unfolding c2 A_def by linarith
  qed
qed

lemma drop_updated_replicate:
  "i < c \<Longrightarrow> drop i ((replicate c None)[i := v]) = v # replicate (c - Suc i) None"
  by (simp add: upd_conv_take_nth_drop)

lemma realloc_block:
  assumes "i \<le> length xs" and "length xs < c"
  shows "take (Suc i) (take i (map Some xs) @ drop i ((replicate c None)[i := Some x]))
         @ take (length xs - i) (drop i (map Some xs))
         @ drop (Suc i + (length xs - i))
             (take i (map Some xs) @ drop i ((replicate c None)[i := Some x]))
       = map Some (take i xs @ x # drop i xs) @ replicate (c - Suc (length xs)) None"
proof -
  from assms have ic: "i < c" by simp
  have min: "min (length xs) i = i" using assms by simp
  show ?thesis
    using assms
    by (simp add: drop_updated_replicate [OF ic] min take_map drop_map Suc_diff_le)
qed

lemma EmplaceWithRealloc_Inr:
  assumes v: "valid env this m"
    and full: "m_size this = m_capacity (m_data this)" and le: "i \<le> m_size this"
    and run: "EmplaceWithRealloc env (b, i) args this m = (Inr (r, this'), m')"
  shows "m_size this' = Suc (m_size this)"
    and "m_capacity (m_data this') = (if m_size this = 0 then 1 else 2 * m_size this)"
    and "m_buffer (m_data this') = Some (brk m)" and "r = (Some (brk m), i)"
    and "brk m' = Suc (brk m)"
    and "\<exists>x. argument_value args m = Some x
           \<and> elements this' m' = take i (elements this (moved_out env args m)) @ x
                 # drop i (elements this (moved_out env args m))"
    and "valid env this' m'"
proof -
  let ?n = "m_size this" and ?z = "sizeof_T env"
  let ?c = "if ?n = 0 then 1 else 2 * ?n"
  let ?bb = "brk m"
  note room = EmplaceWithRealloc_room [OF run le]
  have nR: "?n < size_t_range" using valid_capacity_bound [OF v] full by simp
  have cap': "m_capacity (m_data this') = ?c"
    using room(3) [OF _ nR] room(4) by auto
  have old: "?n * ?z < size_t_range"
    using valid_facts(3) [OF v] full by simp
  have rm: "Suc ?n \<le> (?c * ?z mod size_t_range) div ?z"
    using room(5) unfolding cap' .
  have cz: "?c * ?z < size_t_range"
    by (rule no_wrap [OF valid_facts(1) [OF v] old rm refl])
  have L: "(?c * ?z mod size_t_range) div ?z = ?c"
    using cz valid_facts(1) [OF v] by simp
  have nc: "Suc ?n \<le> ?c" using room(1) cap' by simp
  have cR: "?c < size_t_range"
    using cz valid_facts(1) [OF v] by (cases ?z) auto
  from EmplaceWithRealloc_unfold [OF run] obtain nd m1 m2 m3 m4 m5 where
    alloc: "RawMemory_ctor env (if ?n = 0 then 1 else ?n * 2 mod size_t_range) m = (Inr nd, m1)"
    and constr: "T_construct env args (m_buffer nd, i) m1 = (Inr (), m2)"
    and pre: "InitializeDataUsingOtherData env (m_buffer (m_data this), 0) (m_buffer nd, 0) i m2
       = (Inr (), m3)"
    and suf: "InitializeDataUsingOtherData env (m_buffer (m_data this), i) (m_buffer nd, Suc i)
       (?n - i) m3 = (Inr (), m4)"
    and des: "destroy_n (m_buffer (m_data this), 0) ?n m4 = (Inr (), m5)"
    and fr: "RawMemory_dtor (m_data this) m5 = (Inr (), m')"
    and r: "r = (m_buffer nd, i)"
    and this': "this' = \<lparr>m_data = nd, m_size = Suc ?n mod size_t_range\<rparr>"
    by (rule EmplaceWithRealloc_unfold [OF run]) (rule that; assumption)
  have nd: "m_buffer nd = Some ?bb" "m_capacity nd = ?c"
    using room(6) cap' this' by simp_all
  have sz: "m_size this' = Suc ?n"
    using this' nc cR by simp
  show "m_size this' = Suc ?n" by (rule sz)
  show "m_capacity (m_data this') = ?c" by (rule cap')
  show "m_buffer (m_data this') = Some ?bb" by (rule room(6))
  show "r = (Some ?bb, i)" using r nd by simp
  have cnz: "(if ?n = 0 then 1 else ?n * 2 mod size_t_range) \<noteq> 0"
  proof
    assume "(if ?n = 0 then 1 else ?n * 2 mod size_t_range) = 0"
    from RawMemory_ctor_Inr(2) [OF alloc this] nd show False by simp
  qed
  have ceq: "(if ?n = 0 then 1 else ?n * 2 mod size_t_range) = ?c"
    using RawMemory_ctor_Inr(1) [OF alloc] nd by simp
  from RawMemory_ctor_Inr(3) [OF alloc cnz]
  have h1: "heap m1 = (heap m)(?bb \<mapsto> replicate ?c None)" and b1: "brk m1 = Suc ?bb"
    unfolding ceq L by simp_all
  define mo where "mo = moved_out env args m"
  have vo: "valid env this mo"
    unfolding mo_def by (rule valid_moved_out [OF v])
  from constr [unfolded nd] obtain x m1a where
    mk: "T_make env args m1 = (Inr x, m1a)" and
    put: "construct_at (Some ?bb, i) x m1a = (Inr (), m2)"
    unfolding T_construct_def by (rule bind_InrE)
  let ?x = "x"
  note made = T_make_Inr_general [OF mk]
  from moved_out_fresh_block [OF valid_facts(4) [OF v] h1, of args x env] made
  have val: "argument_value args m = Some x" and
    h1a: "heap m1a = (heap mo)(?bb \<mapsto> replicate ?c None)"
    by (simp_all add: mo_def)
  from put h1a made b1
  have ic: "i < ?c" and
    h2: "heap m2 = (heap mo)(?bb \<mapsto> (replicate ?c None)[i := Some ?x])" and
    b2: "brk m2 = Suc ?bb"
    by (auto simp: construct_at_Inr_iff)
  have shape: "brk m5 = brk m2"
  proof -
    have "same_shape m2 m3"
      using keepsD [OF keeps_InitializeDataUsingOtherData pre,
          of "{m_buffer nd, m_buffer (m_data this)}"] by simp
    moreover have "same_shape m3 m4"
      using keepsD [OF keeps_InitializeDataUsingOtherData suf,
          of "{m_buffer nd, m_buffer (m_data this)}"] by simp
    moreover have "same_shape m4 m5"
      using keepsD [OF keeps_destroy_n des, of "{m_buffer (m_data this)}"] by simp
    ultimately show ?thesis by (simp add: same_shape_def)
  qed
  have bbo: "brk mo = ?bb" by (simp add: mo_def)
  define ys where "ys = take i (elements this mo) @ ?x # drop i (elements this mo)"
  have fin: "heap m' ?bb = Some (map Some ys @ replicate (?c - Suc ?n) None)
      \<and> length ys = Suc ?n
      \<and> (\<forall>a. a \<noteq> ?bb \<longrightarrow> heap m' a = None \<or> heap m' a = heap mo a) \<and> brk m' = brk m5"
  proof (cases "m_buffer (m_data this)")
    case None
    from valid_None [OF vo None] le have n0: "?n = 0" "i = 0" by simp_all
    from fr None have e5: "m' = m5"
      by (simp add: RawMemory_dtor_Inr_iff)
    from pre suf des n0 have "m5 = m2" by simp
    with h2 n0 e5 show ?thesis
      by (simp add: ys_def elements_empty)
  next
    case (Some a)
    from valid_Some [OF vo Some] obtain A where
      A: "heap mo a = Some A" "length A = m_capacity (m_data this)"
         "list_all (\<lambda>s. s \<noteq> None) (take ?n A)" "a \<noteq> ?bb"
      unfolding bbo [symmetric] .
    define xs where "xs = map the (take ?n A)"
    have lxs: "length xs = ?n" using full A(2) by (simp add: xs_def)
    have el: "elements this mo = xs" using Some A(1) by (simp add: elements_Some xs_def)
    have Axs: "A = map Some xs"
      using live_prefix [OF A(3)] full A(2) by (simp add: xs_def)
    define B1 where "B1 = (replicate ?c None)[i := Some ?x]"
    have a2: "heap m2 a = Some A" and bb2: "heap m2 ?bb = Some B1"
      using h2 A by (simp_all add: B1_def)
    have pre': "InitializeDataUsingOtherData env (Some a, 0) (Some ?bb, 0) i m2 = (Inr (), m3)"
      using pre Some nd by simp
    note R1 = InitializeDataUsingOtherData_Inr [OF pre' A(4) a2 bb2]
    from R1(2) obtain A3 where A3: "heap m3 a = Some A3" "drop i A3 = drop i A"
      by auto
    define B3 where "B3 = take i A @ drop i B1"
    have bb3: "heap m3 ?bb = Some B3"
      using R1(1) by (simp add: B3_def)
    have suf': "InitializeDataUsingOtherData env (Some a, i) (Some ?bb, Suc i) (?n - i) m3
        = (Inr (), m4)"
      using suf Some nd by simp
    note R2 = InitializeDataUsingOtherData_Inr [OF suf' A(4) A3(1) bb3]
    have bb4: "heap m4 ?bb = Some (take (Suc i) B3 @ take (?n - i) (drop i A)
        @ drop (Suc i + (?n - i)) B3)"
      using R2(1) A3(2) by simp
    have F: "take (Suc i) B3 @ take (?n - i) (drop i A) @ drop (Suc i + (?n - i)) B3
        = map Some ys @ replicate (?c - Suc ?n) None"
      using realloc_block [of i xs ?c ?x] le lxs nc
      unfolding B3_def B1_def Axs ys_def el by simp
    have des': "destroy_n (Some a, 0) ?n m4 = (Inr (), m5)" using des Some by simp
    have k5: "unchanged_off {Some a} m4 m5"
      using keepsD [OF keeps_destroy_n des', of "{Some a}"] by simp
    from fr Some have h': "heap m' = (heap m5)(a := None)" and bk: "brk m' = brk m5"
      by (auto simp: RawMemory_dtor_Inr_iff)
    have "heap m' ?bb = Some (map Some ys @ replicate (?c - Suc ?n) None)"
      using h' k5 bb4 F A(4) by (simp add: unchanged_off_def)
    moreover have "length ys = Suc ?n"
      using le lxs by (simp add: ys_def el)
    moreover have "heap m' c = None \<or> heap m' c = heap mo c" if "c \<noteq> ?bb" for c
    proof (cases "c = a")
      case True
      with h' show ?thesis by simp
    next
      case False
      with that h' k5 R2(3) R1(3) h2 show ?thesis
        by (simp add: unchanged_off_def)
    qed
    ultimately show ?thesis using bk by blast
  qed
  then have bb': "heap m' ?bb = Some (map Some ys @ replicate (?c - Suc ?n) None)"
    and lys: "length ys = Suc ?n"
    and others: "\<And>a. a \<noteq> ?bb \<Longrightarrow> heap m' a = None \<or> heap m' a = heap mo a"
    and bk: "brk m' = Suc ?bb"
    using shape b2 by auto
  show "brk m' = Suc ?bb" by (rule bk)
  have "elements this' m' = ys"
    using bb' lys sz room(6) by (simp add: elements_def block_of_def)
  with val show "\<exists>x. argument_value args m = Some x
      \<and> elements this' m' = take i (elements this (moved_out env args m)) @ x
            # drop i (elements this (moved_out env args m))"
    by (simp add: ys_def mo_def)
  show "valid env this' m'"
  proof (rule validI [where a = ?bb and blk = "map Some ys @ replicate (?c - Suc ?n) None"])
    show "0 < ?z" by (rule valid_facts(1) [OF v])
    show "m_size this' \<le> m_capacity (m_data this')" using sz cap' nc by simp
    show "m_capacity (m_data this') * ?z < size_t_range" using cap' cz by simp
    show "\<forall>a. brk m' \<le> a \<longrightarrow> heap m' a = None"
    proof (intro allI impI)
      fix a assume "brk m' \<le> a"
      with bk have "a \<noteq> ?bb" "brk m \<le> a" by simp_all
      with others [of a] valid_fresh [OF vo] bbo show "heap m' a = None" by auto
    qed
    show "m_buffer (m_data this') = Some ?bb" by (rule room(6))
    show "heap m' ?bb = Some (map Some ys @ replicate (?c - Suc ?n) None)" by (rule bb')
    show "length (map Some ys @ replicate (?c - Suc ?n) None) = m_capacity (m_data this')"
      using lys cap' nc by simp
    show "list_all (\<lambda>s. s \<noteq> None)
        (take (m_size this') (map Some ys @ replicate (?c - Suc ?n) None))"
      using lys sz by (auto simp: list_all_iff)
  qed
qed

lemma EmplaceWithoutRealloc_made:
  assumes run: "EmplaceWithoutRealloc env pos args this m = (Inr (r, this'), m')"
  shows "\<exists>x m1. T_make env args m = (Inr x, m1)"
proof -
  let ?i = "ptr_diff pos (Vector_begin this)"
  let ?n = "m_size this" and ?d = "m_data this"
  from run obtain e m0 where e: "Vector_end this m = (Inr e, m0)" and
    rest: "bind (if pos = e
            then bind (RawMemory_plus ?d ?n) (\<lambda>p. T_construct env args p)
            else bind (T_make env args) (\<lambda>temp.
                 bind (RawMemory_plus ?d ?n) (\<lambda>p.
                 bind (RawMemory_index ?d (?n - 1)) (\<lambda>back.
                 bind (T_move_construct env back p) (\<lambda>_.
                 bind (RawMemory_plus ?d ?i) (\<lambda>first.
                 bind (RawMemory_plus ?d (?n - 1)) (\<lambda>lst.
                 bind (RawMemory_plus ?d ?n) (\<lambda>d_last.
                 bind (std_move_backward env first lst d_last) (\<lambda>_.
                 bind (RawMemory_index ?d ?i) (\<lambda>q.
                 T_move_assign_from_local env temp q)))))))))) (\<lambda>_.
      bind (RawMemory_plus ?d ?i) (\<lambda>r m.
      (Inr (r, this\<lparr>m_size := (?n + 1) mod size_t_range\<rparr>), m))) m0 = (Inr (r, this'), m')"
    unfolding EmplaceWithoutRealloc_def Let_def by (rule bind_InrE)
  from e have m0: "m0 = m"
    by (simp add: Vector_end_def RawMemory_plus_Inr_iff)
  from rest obtain u m2 where step: "(if pos = e
            then bind (RawMemory_plus ?d ?n) (\<lambda>p. T_construct env args p)
            else bind (T_make env args) (\<lambda>temp.
                 bind (RawMemory_plus ?d ?n) (\<lambda>p.
                 bind (RawMemory_index ?d (?n - 1)) (\<lambda>back.
                 bind (T_move_construct env back p) (\<lambda>_.
                 bind (RawMemory_plus ?d ?i) (\<lambda>first.
                 bind (RawMemory_plus ?d (?n - 1)) (\<lambda>lst.
                 bind (RawMemory_plus ?d ?n) (\<lambda>d_last.
                 bind (std_move_backward env first lst d_last) (\<lambda>_.
                 bind (RawMemory_index ?d ?i) (\<lambda>q.
                 T_move_assign_from_local env temp q)))))))))) m = (Inr u, m2)"
    unfolding m0 by (rule bind_InrE)
  show ?thesis
  proof (cases "pos = e")
    case True
    with step have "bind (RawMemory_plus ?d ?n) (\<lambda>p. T_construct env args p) m = (Inr u, m2)"
      by simp
    then obtain p m3 where "RawMemory_plus ?d ?n m = (Inr p, m3)"
      "T_construct env args p m3 = (Inr u, m2)"
      by (rule bind_InrE)
    then have "T_construct env args p m = (Inr u, m2)"
      by (simp add: RawMemory_plus_Inr_iff)
    then show ?thesis
      unfolding T_construct_def by (rule bind_InrE) blast
  next
    case False
    with step show ?thesis
      by (simp only: if_False) (erule bind_InrE, blast)
  qed
qed

lemma EmplaceWithoutRealloc_Inr:
  assumes v: "valid env this m"
    and room: "m_size this < m_capacity (m_data this)"
    and base: "b = m_buffer (m_data this)" and le: "i \<le> m_size this"
    and run: "EmplaceWithoutRealloc env (b, i) args this m = (Inr (r, this'), m')"
  shows "this' = this\<lparr>m_size := Suc (m_size this)\<rparr>" and "r = (b, i)"
    and "\<exists>x. argument_value args m = Some x
           \<and> elements this' m' = take i (elements this (moved_out env args m)) @ x
                 # drop i (elements this (moved_out env args m))"
    and "valid env this' m'" and "brk m' = brk m"
proof -
  from EmplaceWithoutRealloc_made [OF run] obtain x m1 where
    mk: "T_make env args m = (Inr x, m1)" by blast
  note made = T_make_Inr_general [OF mk]
  have tm: "y = x \<and> heap m1' = heap (moved_out env args m) \<and> brk m1' = brk (moved_out env args m)"
    if "T_make env args m = (Inr y, m1')" for y m1'
    using that mk made by simp
  have vo: "valid env this (moved_out env args m)"
    by (rule valid_moved_out [OF v])
  note core = EmplaceWithoutRealloc_core [OF vo room base le tm run]
  show "this' = this\<lparr>m_size := Suc (m_size this)\<rparr>" by (rule core(1))
  show "r = (b, i)" by (rule core(2))
  show "valid env this' m'" by (rule core(4))
  show "brk m' = brk m" using core(5) by simp
  from core(3) made show "\<exists>x. argument_value args m = Some x
           \<and> elements this' m' = take i (elements this (moved_out env args m)) @ x
                 # drop i (elements this (moved_out env args m))"
    by blast
qed

lemma Emplace_Inr:
  assumes v: "valid env this m"
    and run: "Emplace env (b, i) args this m = (Inr r, this', m')"
  shows "b = m_buffer (m_data this)" and "i \<le> m_size this"
    and "m_size this' = Suc (m_size this)"
    and "r = (m_buffer (m_data this'), i)"
    and "\<exists>x. argument_value args m = Some x
           \<and> elements this' m' = take i (elements this (moved_out env args m)) @ x
                 # drop i (elements this (moved_out env args m))"
    and "valid env this' m'"
    and "m_capacity (m_data this') =
           (if m_size this < m_capacity (m_data this) then m_capacity (m_data this)
            else if m_size this = 0 then 1 else 2 * m_size this)"
    and "m_buffer (m_data this') =
           (if m_size this < m_capacity (m_data this) then m_buffer (m_data this)
            else Some (brk m))"
    and "brk m' = (if m_size this < m_capacity (m_data this) then brk m else Suc (brk m))"
proof -
  let ?n = "m_size this"
  from run have pos: "b = m_buffer (m_data this)" "i \<le> ?n" and
    body: "(if ?n = Capacity this then EmplaceWithRealloc env (b, i) args this
           else EmplaceWithoutRealloc env (b, i) args this) m = (Inr (r, this'), m')"
    by (auto simp: Emplace_def member_Inr_iff bind_Inr_iff ptr_le_Inr_iff Vector_end_def
        Vector_begin_def GetAddress_def RawMemory_plus_Inr_iff assert_Inr_iff)
  show "b = m_buffer (m_data this)" and "i \<le> ?n" by (rule pos)+
  have cap: "Capacity this = m_capacity (m_data this)"
    by (simp add: Capacity_def RawMemory_Capacity_def)
  show "m_size this' = Suc ?n"
    and "r = (m_buffer (m_data this'), i)"
    and "\<exists>x. argument_value args m = Some x
           \<and> elements this' m' = take i (elements this (moved_out env args m)) @ x
                 # drop i (elements this (moved_out env args m))"
    and "valid env this' m'"
    and "m_capacity (m_data this') =
           (if ?n < m_capacity (m_data this) then m_capacity (m_data this)
            else if ?n = 0 then 1 else 2 * ?n)"
    and "m_buffer (m_data this') =
           (if ?n < m_capacity (m_data this) then m_buffer (m_data this) else Some (brk m))"
    and "brk m' = (if ?n < m_capacity (m_data this) then brk m else Suc (brk m))"
  proof -
    have "m_size this' = Suc ?n \<and> r = (m_buffer (m_data this'), i) \<and> (\<exists>x. argument_value args m = Some x
           \<and> elements this' m' = take i (elements this (moved_out env args m)) @ x
                 # drop i (elements this (moved_out env args m)))
      \<and> valid env this' m'
      \<and> m_capacity (m_data this') =
           (if ?n < m_capacity (m_data this) then m_capacity (m_data this)
            else if ?n = 0 then 1 else 2 * ?n)
      \<and> m_buffer (m_data this') =
           (if ?n < m_capacity (m_data this) then m_buffer (m_data this) else Some (brk m))
      \<and> brk m' = (if ?n < m_capacity (m_data this) then brk m else Suc (brk m))" (is ?all)
    proof (cases "?n = m_capacity (m_data this)")
      case True
      with body cap have r: "EmplaceWithRealloc env (b, i) args this m = (Inr (r, this'), m')"
        by simp
      note E = EmplaceWithRealloc_Inr [OF v True pos(2) r]
      from E True show ?thesis by simp
    next
      case False
      with valid_facts(2) [OF v] have room: "?n < m_capacity (m_data this)" by simp
      from False body cap have r: "EmplaceWithoutRealloc env (b, i) args this m = (Inr (r, this'), m')"
        by simp
      note E = EmplaceWithoutRealloc_Inr [OF v room pos(1) pos(2) r]
      from E room pos show ?thesis by simp
    qed
    then show "m_size this' = Suc ?n"
    and "r = (m_buffer (m_data this'), i)"
    and "\<exists>x. argument_value args m = Some x
           \<and> elements this' m' = take i (elements this (moved_out env args m)) @ x
                 # drop i (elements this (moved_out env args m))"
    and "valid env this' m'"
    and "m_capacity (m_data this') =
           (if ?n < m_capacity (m_data this) then m_capacity (m_data this)
            else if ?n = 0 then 1 else 2 * ?n)"
    and "m_buffer (m_data this') =
           (if ?n < m_capacity (m_data this) then m_buffer (m_data this) else Some (brk m))"
    and "brk m' = (if ?n < m_capacity (m_data this) then brk m else Suc (brk m))"
      by blast+
  qed
qed

lemma valid_elements_length: "valid env this m \<Longrightarrow> length (elements this m) = m_size this"
  by (auto simp: valid_def elements_def block_of_def split: option.splits)

lemma elements_moved_out:
  assumes v: "valid env this m"
  shows "length (elements this (moved_out env args m)) = m_size this
     \<and> (\<forall>k<m_size this.
          elements this (moved_out env args m) ! k = elements this m ! k
          \<or> args = MoveFrom (m_buffer (m_data this), k)
            \<and> elements this (moved_out env args m) ! k = moved_from env (elements this m ! k))"
proof -
  have len: "length (elements this (moved_out env args m)) = m_size this"
    by (rule valid_elements_length [OF valid_moved_out [OF v]])
  have "elements this (moved_out env args m) ! k = elements this m ! k
      \<or> args = MoveFrom (m_buffer (m_data this), k)
        \<and> elements this (moved_out env args m) ! k = moved_from env (elements this m ! k)"
    if k: "k < m_size this" for k
  proof (cases args)
    case (MoveFrom p)
    show ?thesis
    proof (cases "slot_of m p")
      case None
      with MoveFrom show ?thesis by (simp add: moved_out_def)
    next
      case (Some s)
      show ?thesis
      proof (cases s)
        case None
        with Some MoveFrom show ?thesis by (simp add: moved_out_def)
      next
        case live: (Some x)
        from Some live obtain a A where p: "fst p = Some a" "heap m a = Some A"
          "snd p < length A" "A ! snd p = Some x"
          by (auto simp: slot_of_def split: option.splits if_splits)
        have mo: "heap (moved_out env args m) = (heap m)(a \<mapsto> A[snd p := Some (moved_from env x)])"
          using MoveFrom Some live p by (simp add: moved_out_def poke_def)
        show ?thesis
        proof (cases "m_buffer (m_data this) = Some a")
          case False
          then have "elements this (moved_out env args m) = elements this m"
            unfolding elements_def block_of_def mo by (simp split: option.splits)
          then show ?thesis by simp
        next
          case True
          from valid_Some [OF v True] p obtain
            A: "length A = m_capacity (m_data this)" by auto
          from valid_facts(2) [OF v] A k have kA: "k < length A" by simp
          have e: "elements this m ! k = the (A ! k)"
            using True p k kA by (simp add: elements_Some)
          have e': "elements this (moved_out env args m) ! k
              = the (A[snd p := Some (moved_from env x)] ! k)"
            using True mo k kA by (simp add: elements_def block_of_def)
          show ?thesis
          proof (cases "k = snd p")
            case same: True
            with True p MoveFrom have "args = MoveFrom (m_buffer (m_data this), k)"
              by (simp add: prod_eq_iff)
            moreover from e e' same p kA
            have "elements this (moved_out env args m) ! k = moved_from env (elements this m ! k)"
              by simp
            ultimately show ?thesis by simp
          next
            case False
            with e e' show ?thesis by simp
          qed
        qed
      qed
    qed
  qed (simp_all add: moved_out_def)
  with len show ?thesis by blast
qed

lemma valid_load:
  assumes v: "valid env this m" and k: "k < m_size this"
  shows "load (m_buffer (m_data this), k) m = (Inr (elements this m ! k), m)"
proof -
  from k valid_facts(2) [OF v] valid_None(2) [OF v] obtain a where
    a: "m_buffer (m_data this) = Some a"
    by (cases "m_buffer (m_data this)") auto
  from valid_Some [OF v a] obtain A where A: "heap m a = Some A"
    "length A = m_capacity (m_data this)" "list_all (\<lambda>s. s \<noteq> None) (take (m_size this) A)"
    by blast
  from k valid_facts(2) [OF v] A(2) have kA: "k < length A" by simp
  have "take (m_size this) A ! k \<in> set (take (m_size this) A)"
    using k kA by (intro nth_mem) simp
  with A(3) k have "A ! k \<noteq> None"
    by (auto simp: list_all_iff)
  then obtain x where x: "A ! k = Some x" by auto
  have "elements this m ! k = x"
    using a A(1) k kA x by (simp add: elements_Some)
  with a A(1) kA x show ?thesis
    by (simp add: load_Inr_iff)
qed

lemma EmplaceBack_eq:
  assumes v: "valid env this m"
  shows "EmplaceBack env args this m = Emplace env (m_buffer (m_data this), m_size this) args this m"
  using valid_facts(2) [OF v]
  by (simp add: EmplaceBack_def Vector_end_def RawMemory_plus_def bind_def assert_def)

lemma PushBack_Inr:
  assumes v: "valid env this m"
    and run: "PushBack env a this m = (Inr u, this', m')"
  shows "valid env this' m'" and "m_size this' = Suc (m_size this)"
    and "m_capacity (m_data this') =
           (if m_size this < m_capacity (m_data this) then m_capacity (m_data this)
            else if m_size this = 0 then 1 else 2 * m_size this)"
    and "brk m' = (if m_size this < m_capacity (m_data this) then brk m else Suc (brk m))"
proof -
  from run obtain r where "EmplaceBack env a this m = (Inr r, this', m')"
    by (auto simp: PushBack_def split: prod.splits sum.splits)
  then have run': "Emplace env (m_buffer (m_data this), m_size this) a this m = (Inr r, this', m')"
    by (simp add: EmplaceBack_eq [OF v])
  note E = Emplace_Inr [OF v run']
  show "valid env this' m'" by (rule E(6))
  show "m_size this' = Suc (m_size this)" by (rule E(3))
  show "m_capacity (m_data this') =
           (if m_size this < m_capacity (m_data this) then m_capacity (m_data this)
            else if m_size this = 0 then 1 else 2 * m_size this)" by (rule E(7))
  show "brk m' = (if m_size this < m_capacity (m_data this) then brk m else Suc (brk m))"
    by (rule E(9))
qed

lemma doubled_step:
  assumes d: "doubled base this m" and le: "m_size this \<le> m_capacity (m_data this)"
    and s: "m_size this' = Suc (m_size this)"
    and c: "m_capacity (m_data this') =
           (if m_size this < m_capacity (m_data this) then m_capacity (m_data this)
            else if m_size this = 0 then 1 else 2 * m_size this)"
    and b: "brk m' = (if m_size this < m_capacity (m_data this) then brk m else Suc (brk m))"
  shows "doubled base this' m'"
proof (cases "m_size this < m_capacity (m_data this)")
  case True
  with d obtain k where k: "m_capacity (m_data this) = 2 ^ k" "m_size this \<le> 2 ^ k"
    "2 ^ k < 2 * m_size this" "brk m = base + (k + 1)"
    by (auto simp: doubled_def)
  from True k s c b have "m_capacity (m_data this') = 2 ^ k \<and> m_size this' \<le> 2 ^ k
      \<and> 2 ^ k < 2 * m_size this' \<and> brk m' = base + (k + 1)"
    by simp
  then show ?thesis unfolding doubled_def by blast
next
  case False
  with le have full: "m_size this = m_capacity (m_data this)" by simp
  show ?thesis
  proof (cases "m_size this = 0")
    case True
    with d have "brk m = base" by (auto simp: doubled_def)
    with True full s c b have "m_capacity (m_data this') = 2 ^ 0 \<and> m_size this' \<le> 2 ^ 0
      \<and> 2 ^ 0 < 2 * m_size this' \<and> brk m' = base + (0 + 1)"
      by simp
    then show ?thesis unfolding doubled_def by blast
  next
    case nz: False
    with d obtain k where k: "m_capacity (m_data this) = 2 ^ k" "brk m = base + (k + 1)"
      by (auto simp: doubled_def)
    from nz full k s c b have "m_capacity (m_data this') = 2 ^ Suc k \<and> m_size this' \<le> 2 ^ Suc k
      \<and> 2 ^ Suc k < 2 * m_size this' \<and> brk m' = base + (Suc k + 1)"
      by simp
    then show ?thesis unfolding doubled_def by blast
  qed
qed

lemma PushBack_each_doubled:
  assumes "valid env this m" and "doubled base this m"
    and "PushBack_each env vs this m = (Inr u, this', m')"
  shows "valid env this' m' \<and> doubled base this' m' \<and> m_size this' = m_size this + length vs"
  using assms
proof (induction vs arbitrary: this m)
  case Nil
  then show ?case by simp
next
  case (Cons a vs)
  from Cons.prems(3) obtain this1 m1 where
    first: "PushBack env a this m = (Inr (), this1, m1)" and
    rest: "PushBack_each env vs this1 m1 = (Inr u, this', m')"
    by (auto split: prod.splits sum.splits)
  note P = PushBack_Inr [OF Cons.prems(1) first]
  have d1: "doubled base this1 m1"
    by (rule doubled_step [OF Cons.prems(2) valid_facts(2) [OF Cons.prems(1)] P(2) P(3) P(4)])
  from Cons.IH [OF P(1) d1 rest] P(2) show ?case by simp
qed

lemma yieldsD: "yields act Q \<Longrightarrow> act s = (Inr r, s') \<Longrightarrow> Q r"
  by (auto simp: yields_def)

lemma yields_mono: "yields act Q \<Longrightarrow> (\<And>r. Q r \<Longrightarrow> R r) \<Longrightarrow> yields act R"
  by (auto simp: yields_def)

lemma yields_return: "Q x \<Longrightarrow> yields (\<lambda>s. (Inr x, s)) Q"
  by (simp add: yields_def)

lemma yields_bind:
  assumes "yields f Q" and "\<And>x. Q x \<Longrightarrow> yields (g x) R"
  shows "yields (bind f g) R"
  using assms unfolding yields_def by (auto simp: bind_Inr_iff) blast

lemma yields_bind_any: "(\<And>x. yields (g x) R) \<Longrightarrow> yields (bind f g) R"
  unfolding yields_def by (auto simp: bind_Inr_iff)

lemma yields_cleanup_rethrow: "yields body Q \<Longrightarrow> yields (cleanup_rethrow body handler) Q"
  unfolding yields_def by (auto simp: cleanup_rethrow_Inr_iff)

lemma yields_if: "(c \<Longrightarrow> yields f Q) \<Longrightarrow> (\<not> c \<Longrightarrow> yields g Q) \<Longrightarrow> yields (if c then f else g) Q"
  by simp

lemma yields_RawMemory_ctor: "yields (RawMemory_ctor env c) (\<lambda>d. m_capacity d = c)"
  unfolding yields_def by (auto dest: RawMemory_ctor_Inr(1))

lemma yields_ptr_le: "yields (ptr_le p q) (\<lambda>c. c = (snd p \<le> snd q))"
  unfolding yields_def by (auto simp: ptr_le_Inr_iff)

lemma yields_ptr_less: "yields (ptr_less p q) (\<lambda>c. c = (snd p < snd q))"
  unfolding yields_def by (auto simp: ptr_less_Inr_iff)

lemma yields_assert: "yields (assert b) (\<lambda>_. b)"
  unfolding yields_def by (auto simp: assert_Inr_iff)

lemma yields_RawMemory_plus: "yields (RawMemory_plus d k) (\<lambda>p. p = (m_buffer d, k) \<and> k \<le> m_capacity d)"
  unfolding yields_def by (auto simp: RawMemory_plus_Inr_iff)

lemma yields_Vector_end:
  "yields (Vector_end this) (\<lambda>e. e = (m_buffer (m_data this), m_size this))"
  unfolding yields_def by (auto simp: Vector_end_def RawMemory_plus_Inr_iff)

lemma member_Inr_yields:
  assumes "member this body m = (Inr u, this', m')" and "yields body (\<lambda>(x, v). P v)"
  shows "P this'"
  using assms by (auto simp: member_Inr_iff dest: yieldsD)

lemma member_yields:
  assumes "member this body m = (r, this', m')"
    and "yields body (\<lambda>(x, v). P v)" and "P this"
  shows "P this'"
proof (cases "this' = this")
  case True
  with assms(3) show ?thesis by simp
next
  case False
  with assms(1) obtain x where "body m = (Inr (x, this'), m')"
    by (auto simp: member_def split: prod.splits sum.splits)
  from yieldsD [OF assms(2) this] show ?thesis by simp
qed

lemma Reserve_fields:
  assumes run: "Reserve env n this m = (r, this', m')"
  shows "m_size this' = m_size this
     \<and> (m_capacity (m_data this') = m_capacity (m_data this)
        \<or> m_capacity (m_data this) < n \<and> m_capacity (m_data this') = n)
     \<and> (\<forall>u. r = Inr u \<longrightarrow> n \<le> m_capacity (m_data this'))"
proof (cases "n \<le> m_capacity (m_data this)")
  case True
  with run show ?thesis by (auto simp: Reserve_small)
next
  case False
  let ?P = "\<lambda>v. m_size v = m_size this
     \<and> (m_capacity (m_data v) = m_capacity (m_data this)
        \<or> m_capacity (m_data this) < n \<and> m_capacity (m_data v) = n)"
  let ?body = "bind (RawMemory_ctor env n) (\<lambda>new_data.
         bind (cleanup_rethrow
                 (InitializeDataUsingOtherData env (GetAddress (m_data this))
                    (GetAddress new_data) (m_size this))
                 (RawMemory_dtor new_data)) (\<lambda>_.
         bind (destroy_n (GetAddress (m_data this)) (m_size this)) (\<lambda>_.
         case RawMemory_Swap (m_data this) new_data of (d, new_data1) \<Rightarrow>
         bind (RawMemory_dtor new_data1) (\<lambda>_ m.
         (Inr ((), this\<lparr>m_data := d\<rparr>), m)))))"
  from False run have run': "member this ?body m = (r, this', m')"
    by (simp add: Reserve_def RawMemory_Capacity_def)
  have y: "yields ?body (\<lambda>(x, v). m_size v = m_size this \<and> m_capacity (m_data v) = n)"
  proof (rule yields_bind [OF yields_RawMemory_ctor], rule yields_bind_any, rule yields_bind_any)
    fix nd :: RawMemory assume "m_capacity nd = n"
    then show "yields (case RawMemory_Swap (m_data this) nd of (d, new_data1) \<Rightarrow>
         bind (RawMemory_dtor new_data1) (\<lambda>_ m.
         (Inr ((), this\<lparr>m_data := d\<rparr>), m)))
        (\<lambda>(x, v). m_size v = m_size this \<and> m_capacity (m_data v) = n)"
      unfolding RawMemory_Swap_eq prod.case
      by (intro yields_bind_any yields_return) simp
  qed
  have "yields ?body (\<lambda>(x, v). ?P v)"
    by (rule yields_mono [OF y]) (use False in auto)
  from member_yields [OF run' this] have 1: "?P this'" by simp
  have "n \<le> m_capacity (m_data this')" if "r = Inr u" for u
    using member_Inr_yields [OF run' [unfolded that] y] by simp
  with 1 show ?thesis by blast
qed

lemma Reserve_within:
  "Reserve env n this m = (r, this', m') \<Longrightarrow> within_capacity this \<Longrightarrow> within_capacity this'"
  by (drule Reserve_fields) (auto simp: within_capacity_def)

lemma EmplaceWithRealloc_within:
  assumes "snd pos \<le> m_size this"
  shows "yields (EmplaceWithRealloc env pos args this) (\<lambda>(x, v). within_capacity v)"
  unfolding yields_def
proof (intro allI impI)
  fix m r m'
  assume run: "EmplaceWithRealloc env pos args this m = (Inr r, m')"
  obtain x v where r: "r = (x, v)" by (cases r)
  with run have "EmplaceWithRealloc env (fst pos, snd pos) args this m = (Inr (x, v), m')"
    by simp
  from EmplaceWithRealloc_room(1,2) [OF this assms]
  show "case r of (x, v) \<Rightarrow> within_capacity v"
    unfolding r by (simp add: within_capacity_def)
qed

lemma EmplaceWithoutRealloc_within:
  assumes "m_size this < m_capacity (m_data this)"
  shows "yields (EmplaceWithoutRealloc env pos args this) (\<lambda>(x, v). within_capacity v)"
proof -
  have "Suc (m_size this) mod size_t_range \<le> m_capacity (m_data this)"
    by (rule le_trans [OF mod_less_eq_dividend]) (use assms in simp)
  then show ?thesis
    unfolding EmplaceWithoutRealloc_def Let_def
    by (intro yields_bind_any yields_return) (simp add: within_capacity_def)
qed

lemma Emplace_within:
  assumes run: "Emplace env pos args this m = (r, this', m')" and w: "within_capacity this"
  shows "within_capacity this'"
proof -
  have "yields (bind (ptr_le (Vector_begin this) pos) (\<lambda>ge.
        bind (Vector_end this) (\<lambda>e.
        bind (ptr_le pos e) (\<lambda>le.
        bind (assert (ge \<and> le)) (\<lambda>_.
        if m_size this = Capacity this
        then EmplaceWithRealloc env pos args this
        else EmplaceWithoutRealloc env pos args this))))) (\<lambda>(x, v). within_capacity v)"
  proof (rule yields_bind_any, rule yields_bind [OF yields_Vector_end],
      rule yields_bind [OF yields_ptr_le], rule yields_bind [OF yields_assert], rule yields_if)
    fix e le and ge :: bool
    assume "e = (m_buffer (m_data this), m_size this)"
      and "le = (snd pos \<le> snd e)" and "ge \<and> le"
    then have le: "snd pos \<le> m_size this" by simp
    show "yields (EmplaceWithRealloc env pos args this) (\<lambda>(x, v). within_capacity v)"
      by (rule EmplaceWithRealloc_within [OF le])
    assume "m_size this \<noteq> Capacity this"
    with w have "m_size this < m_capacity (m_data this)"
      by (simp add: within_capacity_def Capacity_def RawMemory_Capacity_def)
    then show "yields (EmplaceWithoutRealloc env pos args this) (\<lambda>(x, v). within_capacity v)"
      by (rule EmplaceWithoutRealloc_within)
  qed
  from member_yields [OF run [unfolded Emplace_def] this w] show ?thesis .
qed

lemma EmplaceBack_within:
  assumes run: "EmplaceBack env args this m = (r, this', m')" and w: "within_capacity this"
  shows "within_capacity this'"
proof (cases "Vector_end this m")
  case (Pair a m1)
  show ?thesis
  proof (cases a)
    case (Inl f)
    with Pair run w show ?thesis by (simp add: EmplaceBack_def)
  next
    case (Inr e)
    with Pair run have "Emplace env e args this m1 = (r, this', m')"
      by (simp add: EmplaceBack_def)
    from Emplace_within [OF this w] show ?thesis .
  qed
qed

lemma PushBack_within:
  assumes run: "PushBack env args this m = (r, this', m')" and w: "within_capacity this"
  shows "within_capacity this'"
proof -
  obtain r1 where "EmplaceBack env args this m = (r1, this', m')"
    using run by (auto simp: PushBack_def split: prod.splits sum.splits)
  from EmplaceBack_within [OF this w] show ?thesis .
qed

lemma PopBack_within:
  assumes run: "PopBack this m = (r, this', m')" and w: "within_capacity this"
  shows "within_capacity this'"
proof -
  have "yields (bind (assert (m_size this \<noteq> 0)) (\<lambda>_.
        bind (RawMemory_index (m_data this) (m_size this - 1)) (\<lambda>p.
        bind (destroy_at p) (\<lambda>_ m.
        (Inr ((), this\<lparr>m_size := m_size this - 1\<rparr>), m))))) (\<lambda>(x, v). within_capacity v)"
    using w by (intro yields_bind_any yields_return) (simp add: within_capacity_def)
  from member_yields [OF run [unfolded PopBack_def] this w] show ?thesis .
qed

lemma Erase_within:
  fixes m :: "'a machine"
  assumes run: "Erase env pos this m = (r, this', m')" and w: "within_capacity this"
  shows "within_capacity this'"
proof -
  from run have "this' = this
      \<or> (\<exists>(m1 :: 'a machine) r2 m2. PopBack this m1 = (r2, this', m2))"
    unfolding Erase_def by (auto split: prod.splits sum.splits)
  with w PopBack_within show ?thesis by blast
qed

lemma Resize_within:
  assumes run: "Resize env n this m = (r, this', m')" and w: "within_capacity this"
  shows "within_capacity this'"
proof (cases "n < m_size this")
  case True
  have "yields (bind (RawMemory_plus (m_data this) n) (\<lambda>p.
              bind (destroy_n p (m_size this - n)) (\<lambda>_ m1.
              (Inr ((), this\<lparr>m_size := n\<rparr>), m1)))) (\<lambda>(x, v). within_capacity v)"
    using w True by (intro yields_bind_any yields_return) (simp add: within_capacity_def)
  from member_yields [OF _ this w] run True show ?thesis
    by (simp add: Resize_def)
next
  case False
  obtain r1 this1 m1 where res: "Reserve env n this m = (r1, this1, m1)"
    by (cases "Reserve env n this m") auto
  note F = Reserve_fields [OF res]
  have w1: "within_capacity this1" by (rule Reserve_within [OF res w])
  show ?thesis
  proof (cases r1)
    case (Inl f)
    with run False res w1 show ?thesis by (simp add: Resize_def)
  next
    case (Inr u)
    from F Inr have "n \<le> m_capacity (m_data this1)" by auto
    then have "yields (bind (RawMemory_plus (m_data this1) (m_size this1)) (\<lambda>p.
                   bind (uninitialized_value_construct_n env p (n - m_size this1)) (\<lambda>_ m2.
                   (Inr ((), this1\<lparr>m_size := n\<rparr>), m2)))) (\<lambda>(x, v). within_capacity v)"
      by (intro yields_bind_any yields_return) (simp add: within_capacity_def)
    from member_yields [OF _ this w1] run False res Inr show ?thesis
      by (simp add: Resize_def)
  qed
qed

lemma Vector_sized_within: "yields (Vector_sized env n) within_capacity"
  unfolding Vector_sized_def
  by (intro yields_bind [OF yields_RawMemory_ctor] yields_cleanup_rethrow yields_bind_any
      yields_return) (simp add: within_capacity_def)

lemma Vector_copy_within: "yields (Vector_copy env other) within_capacity"
  unfolding Vector_copy_def
  by (intro yields_bind [OF yields_RawMemory_ctor] yields_cleanup_rethrow yields_bind_any
      yields_return) (simp add: within_capacity_def)

lemma copy_assign_body_within:
  assumes run: "copy_assign_body env rhs this m = (r, this', m')" and w: "within_capacity this"
  shows "within_capacity this'"
proof (cases "m_size rhs > RawMemory_Capacity (m_data this)")
  case True
  have "yields (bind (Vector_copy env rhs) (\<lambda>rhs_copy.
              case Swap this rhs_copy of (this1, rhs_copy1) \<Rightarrow>
              bind (Vector_dtor rhs_copy1) (\<lambda>_ m.
              (Inr ((), this1\<lparr>m_size := m_size rhs\<rparr>), m)))) (\<lambda>(x, v). within_capacity v)"
  proof (rule yields_bind [where Q = "\<lambda>c. m_capacity (m_data c) = m_size rhs"])
    show "yields (Vector_copy env rhs) (\<lambda>c. m_capacity (m_data c) = m_size rhs)"
      unfolding Vector_copy_def
      by (intro yields_bind [OF yields_RawMemory_ctor] yields_cleanup_rethrow yields_bind_any
          yields_return) simp
    fix c :: Vector assume "m_capacity (m_data c) = m_size rhs"
    then show "yields (case Swap this c of (this1, rhs_copy1) \<Rightarrow>
              bind (Vector_dtor rhs_copy1) (\<lambda>_ m.
              (Inr ((), this1\<lparr>m_size := m_size rhs\<rparr>), m))) (\<lambda>(x, v). within_capacity v)"
      unfolding Swap_eq
      by (simp add: within_capacity_def yields_bind_any yields_return)
  qed
  from member_yields [OF _ this w] run True show ?thesis
    by (simp add: copy_assign_body_def)
next
  case False
  then have "yields (bind (RawMemory_plus (m_data rhs) (min (m_size rhs) (m_size this))) (\<lambda>lst.
              bind (std_copy env (GetAddress (m_data rhs)) lst (GetAddress (m_data this))) (\<lambda>_.
              bind (if m_size this > m_size rhs
                    then bind (RawMemory_plus (m_data this) (m_size rhs)) (\<lambda>p.
                         destroy_n p (m_size this - m_size rhs))
                    else bind (RawMemory_plus (m_data rhs) (m_size this)) (\<lambda>from.
                         bind (RawMemory_plus (m_data this) (m_size this)) (\<lambda>to.
                         uninitialized_copy_n env from (m_size rhs - m_size this) to))) (\<lambda>_ m.
              (Inr ((), this\<lparr>m_size := m_size rhs\<rparr>), m))))) (\<lambda>(x, v). within_capacity v)"
    by (intro yields_bind_any yields_return)
      (simp add: within_capacity_def RawMemory_Capacity_def)
  from member_yields [OF _ this w] run False show ?thesis
    by (simp add: copy_assign_body_def)
qed

lemma call_member_within:
  assumes run: "call_member this f w = (r, w')" and a: "all_within w"
    and f: "\<And>v m r1 v1 m1. f v m = (r1, v1, m1) \<Longrightarrow> within_capacity v \<Longrightarrow> within_capacity v1"
  shows "all_within w'"
proof (cases "vecs w this")
  case None
  with run a show ?thesis by (simp add: call_member_def)
next
  case (Some v)
  obtain r1 v1 m1 where res: "f v (mach w) = (r1, v1, m1)"
    by (cases "f v (mach w)") auto
  from a Some have "within_capacity v" by (auto simp: all_within_def)
  from f [OF res this] have v1: "within_capacity v1" .
  from run Some res have "w' = w\<lparr>vecs := (vecs w)(this \<mapsto> v1), mach := m1\<rparr>"
    by (cases r1) (auto simp: call_member_def)
  with a v1 show ?thesis by (auto simp: all_within_def)
qed

lemma construct_within:
  assumes run: "construct this ctor w = (r, w')" and a: "all_within w"
    and c: "yields ctor within_capacity"
  shows "all_within w'"
proof (cases "vecs w this")
  case (Some v)
  with run a show ?thesis by (simp add: construct_def)
next
  case None
  obtain r1 m1 where res: "ctor (mach w) = (r1, m1)" by (cases "ctor (mach w)") auto
  show ?thesis
  proof (cases r1)
    case (Inl f)
    with run None res a show ?thesis by (auto simp: construct_def all_within_def)
  next
    case (Inr v)
    with yieldsD [OF c] res have "within_capacity v" by blast
    with run None res Inr a show ?thesis
      by (auto simp: construct_def all_within_def split: if_splits)
  qed
qed

lemma swap_objects_within:
  assumes run: "swap_objects this other w = (r, w')" and a: "all_within w"
  shows "all_within w'"
  using assms
  by (auto simp: swap_objects_def Swap_eq all_within_def split: option.splits if_splits)

lemma exec_within:
  assumes run: "exec env c w = (r, w')" and a: "all_within w"
  shows "all_within w'"
proof (cases c)
  case (Construct this)
  with run have "construct this (\<lambda>m. (Inr Vector_default, m)) w = (r, w')" by simp
  from construct_within [OF this a] show ?thesis
    by (simp add: yields_def within_capacity_def Vector_default_def RawMemory_default_def)
next
  case (ConstructSized this n)
  with run have "construct this (Vector_sized env n) w = (r, w')" by simp
  from construct_within [OF this a Vector_sized_within] show ?thesis .
next
  case (ConstructCopy this other)
  show ?thesis
  proof (cases "vecs w other")
    case None
    with run ConstructCopy a show ?thesis by simp
  next
    case (Some v)
    with run ConstructCopy have "construct this (Vector_copy env v) w = (r, w')" by simp
    from construct_within [OF this a Vector_copy_within] show ?thesis .
  qed
next
  case (ConstructMove this other)
  with run a show ?thesis
    by (auto simp: Vector_move_construct_def Vector_move_def Swap_eq all_within_def
        within_capacity_def Vector_default_def RawMemory_default_def
        split: option.splits if_splits)
next
  case (Destroy this)
  with run a show ?thesis
    by (auto simp: Vector_destroy_def all_within_def split: option.splits prod.splits if_splits)
next
  case (AssignCopy this rhs)
  show ?thesis
  proof (cases "this \<noteq> rhs")
    case False
    with run AssignCopy a show ?thesis
      by (auto simp: Vector_copy_assign_def split: option.splits)
  next
    case True
    show ?thesis
    proof (cases "vecs w rhs")
      case None
      with run AssignCopy True a show ?thesis by (simp add: Vector_copy_assign_def)
    next
      case (Some v)
      with run AssignCopy True have "call_member this (copy_assign_body env v) w = (r, w')"
        by (simp add: Vector_copy_assign_def)
      from call_member_within [OF this a copy_assign_body_within] show ?thesis .
    qed
  qed
next
  case (AssignMove this rhs)
  with run a swap_objects_within [of this rhs w r w'] show ?thesis
    by (auto simp: Vector_move_assign_def split: if_splits option.splits)
next
  case (CallSwap this other)
  with run a swap_objects_within [of this other w r w'] show ?thesis by simp
next
  case (CallPushBack this x)
  with run have "call_member this (PushBack env x) w = (r, w')" by simp
  from call_member_within [OF this a PushBack_within] show ?thesis .
next
  case (CallEmplaceBack this x)
  with run have "call_member this (EmplaceBack env x) w = (r, w')" by simp
  from call_member_within [OF this a EmplaceBack_within] show ?thesis .
next
  case (CallPopBack this)
  with run have "call_member this PopBack w = (r, w')" by simp
  from call_member_within [OF this a PopBack_within] show ?thesis .
next
  case (CallResize this n)
  with run have "call_member this (Resize env n) w = (r, w')" by simp
  from call_member_within [OF this a Resize_within] show ?thesis .
next
  case (CallReserve this n)
  with run have "call_member this (Reserve env n) w = (r, w')" by simp
  from call_member_within [OF this a Reserve_within] show ?thesis .
next
  case (CallEmplace this pos x)
  with run have "call_member this (Emplace env pos x) w = (r, w')" by simp
  from call_member_within [OF this a Emplace_within] show ?thesis .
next
  case (CallInsert this pos x)
  with run have "call_member this (Emplace env pos x) w = (r, w')" by (simp add: Insert_def)
  from call_member_within [OF this a Emplace_within] show ?thesis .
next
  case (CallErase this pos)
  with run have "call_member this (Erase env pos) w = (r, w')" by simp
  from call_member_within [OF this a Erase_within] show ?thesis .
qed

lemma run_within: "all_within w \<Longrightarrow> all_within (run env cs w)"
proof (induction cs arbitrary: w)
  case Nil
  then show ?case by simp
next
  case (Cons c cs)
  obtain r w1 where res: "exec env c w = (r, w1)" by (cases "exec env c w") auto
  from exec_within [OF res Cons.prems] have w1: "all_within w1" .
  show ?case
  proof (cases r)
    case (Inr u)
    with res Cons.IH [OF w1] show ?thesis by simp
  next
    case (Inl f)
    with res Cons.IH [OF w1] w1 show ?thesis by (cases f) simp_all
  qed
qed

section \<open>The claims\<close>

subsection \<open>C1: the strong guarantee of the reallocating paths\<close>

text \<open>
  C1, as amended. Let \<open>Reserve\<close>, or \<open>Emplace\<close> or \<open>Insert\<close> on a full vector, throw an
  exception (from the allocation, from the construction of the new element or from a
  relocation), and let \<open>src\<close> be the block of the object that \<open>Emplace\<close> or \<open>Insert\<close>
  was given as an rvalue, if that object lives in a storage block (\<open>src\<close> is empty for
  \<open>Reserve\<close> and for every other argument). Then, for every element type, the fields of
  the vector are what they were (size, capacity and buffer), the new block has been
  freed, and every block other than the buffer of the vector and \<open>src\<close> is what it was.
  If moreover the element type is nothrow-move-constructible, or it is copy-constructible
  and \<open>src\<close> is empty, then the whole heap is what it was, and the vector holds the
  element values it held.
\<close>

theorem reallocation_strong_guarantee:
  assumes "heap m (brk m) = None"
    and "Reserve env n this m = (Inl (Exception e), this', m') \<and> src = {}
         \<or> m_size this = Capacity this \<and> src = moved_source args
            \<and> (Emplace env pos args this m = (Inl (Exception e), this', m')
               \<or> Insert env pos args this m = (Inl (Exception e), this', m'))"
  shows "this' = this \<and> heap m' (brk m) = None
         \<and> (\<forall>a. Some a \<notin> insert (m_buffer (m_data this)) src \<longrightarrow> heap m' a = heap m a)
         \<and> (is_nothrow_move_constructible env \<or> is_copy_constructible env \<and> src = {}
              \<longrightarrow> heap m' = heap m \<and> elements this' m' = elements this m)"
proof -
  have frame: "this' = this \<and> heap m' (brk m) = None \<and> (\<forall>a. Some a \<notin> S \<longrightarrow> heap m' a = heap m a)"
    if "is_nothrow_move_constructible env \<or> src \<subseteq> S"
      and "is_nothrow_move_constructible env \<or> is_copy_constructible env
           \<or> m_buffer (m_data this) \<in> S" for S
    using assms that Reserve_exception_frame [of env n this m e this' m' S]
      Emplace_exception_frame [of env pos args this m e this' m' S]
    by (auto simp: Insert_def)
  from frame [of "insert (m_buffer (m_data this)) src"]
  have general: "this' = this \<and> heap m' (brk m) = None
      \<and> (\<forall>a. Some a \<notin> insert (m_buffer (m_data this)) src \<longrightarrow> heap m' a = heap m a)"
    by blast
  have strong: "heap m' = heap m \<and> elements this' m' = elements this m"
    if "is_nothrow_move_constructible env \<or> is_copy_constructible env \<and> src = {}"
  proof -
    from frame [of "{}"] that have "this' = this \<and> heap m' = heap m"
      by (auto simp: fun_eq_iff)
    then show ?thesis by (simp add: elements_def block_of_def split: option.splits)
  qed
  from general strong show ?thesis by blast
qed

theorem reallocation_strong_guarantee_witness:
  "fst (Reserve copying_env 4 full_vector two_elements) = Inl (Exception element_exception)
   \<and> fst (snd (Reserve copying_env 4 full_vector two_elements)) = full_vector
   \<and> heap (snd (snd (Reserve copying_env 4 full_vector two_elements))) = heap two_elements
   \<and> elements full_vector two_elements = [7, 8]"
proof -
  have thrown: "fst (Reserve copying_env 4 full_vector two_elements)
      = Inl (Exception element_exception)"
    by (simp add: model_defs copying_env_def full_vector_def two_elements_def)
  have copyable: "is_copy_constructible copying_env"
    by (simp add: copying_env_def)
  have fresh: "heap two_elements (brk two_elements) = None"
    by (simp add: two_elements_def)
  have run: "Reserve copying_env 4 full_vector two_elements
      = (Inl (Exception element_exception),
         fst (snd (Reserve copying_env 4 full_vector two_elements)),
         snd (snd (Reserve copying_env 4 full_vector two_elements)))"
    using thrown by (simp add: prod_eq_iff)
  have vals: "elements full_vector two_elements = [7, 8]"
    by (simp add: model_defs full_vector_def two_elements_def)
  from reallocation_strong_guarantee [OF fresh disjI1 [OF conjI [OF run refl]]] copyable
  have "fst (snd (Reserve copying_env 4 full_vector two_elements)) = full_vector
      \<and> heap (snd (snd (Reserve copying_env 4 full_vector two_elements))) = heap two_elements"
    by blast
  with thrown vals show ?thesis by simp
qed

text \<open>
  C1 as stated fails in two ways. For an element type that has no copy constructor and a
  move constructor that may throw, the elements are moved, and when the move of the second
  element throws during \<open>Reserve\<close>, the first element of the vector is left moved-from.
  For a copy-constructible element type with a move constructor that may throw,
  \<open>Insert(begin() + 1, std::move(v[0]))\<close> on a full vector moves \<open>v[0]\<close> into the new
  block first; when the copy of an element then throws, \<open>v[0]\<close> is left moved-from.
\<close>

theorem reallocation_strong_guarantee_counterexample:
  "fst (Reserve move_only_env 4 full_vector two_elements) = Inl (Exception element_exception)
   \<and> elements (fst (snd (Reserve move_only_env 4 full_vector two_elements)))
        (snd (snd (Reserve move_only_env 4 full_vector two_elements))) = [0, 8]
   \<and> fst (Insert copying_env (Some 0, 1) (MoveFrom (Some 0, 0)) full_vector two_elements)
       = Inl (Exception element_exception)
   \<and> elements
        (fst (snd (Insert copying_env (Some 0, 1) (MoveFrom (Some 0, 0)) full_vector two_elements)))
        (snd (snd (Insert copying_env (Some 0, 1) (MoveFrom (Some 0, 0)) full_vector two_elements)))
       = [0, 8]
   \<and> m_size full_vector = Capacity full_vector
   \<and> elements full_vector two_elements = [7, 8]"
  by (simp add: model_defs move_only_env_def copying_env_def full_vector_def two_elements_def)

subsection \<open>C2: the size is within the capacity\<close>

text \<open>
  C2. A program is any list of calls of the public operations on the vectors of a store,
  run from the empty store: constructions, copy and move construction and assignment,
  \<open>Swap\<close>, \<open>PushBack\<close>, \<open>EmplaceBack\<close>, \<open>PopBack\<close>, \<open>Insert\<close>, \<open>Emplace\<close>, \<open>Erase\<close>,
  \<open>Resize\<close>, \<open>Reserve\<close> and destruction. Whatever the calls returned or threw, every
  vector that exists after the program has a size that is at most its capacity. Every
  point between two calls of a program is the end of a shorter program.
\<close>

theorem size_within_capacity:
  assumes "vecs (run env cs start) this = Some v"
  shows "Size v \<le> Capacity v"
proof -
  have "all_within (start :: 'a world)"
    by (simp add: all_within_def start_def)
  then have "all_within (run env cs start)"
    by (rule run_within)
  with assms show ?thesis
    by (auto simp: all_within_def within_capacity_def Size_def Capacity_def RawMemory_Capacity_def)
qed

theorem size_within_capacity_witness:
  "vecs (run int_env [Construct 0, CallPushBack 0 (CopyOf 5), CallPushBack 0 (CopyOf 6),
          CallPushBack 0 (CopyOf 7)] start) 0
     = Some \<lparr>m_data = \<lparr>m_buffer = Some 2, m_capacity = 4\<rparr>, m_size = 3\<rparr>
   \<and> Size \<lparr>m_data = \<lparr>m_buffer = Some 2, m_capacity = 4\<rparr>, m_size = 3\<rparr>
       \<le> Capacity \<lparr>m_data = \<lparr>m_buffer = Some 2, m_capacity = 4\<rparr>, m_size = 3\<rparr>"
proof -
  have final: "vecs (run int_env [Construct 0, CallPushBack 0 (CopyOf 5), CallPushBack 0 (CopyOf 6),
          CallPushBack 0 (CopyOf 7)] start) 0
     = Some \<lparr>m_data = \<lparr>m_buffer = Some 2, m_capacity = 4\<rparr>, m_size = 3\<rparr>"
    by (simp add: model_defs construct_def call_member_def PushBack_def EmplaceBack_def
        PopBack_def int_env_def Vector_default_def RawMemory_default_def start_def)
  from size_within_capacity [OF final] final show ?thesis by simp
qed

subsection \<open>C3: the growth policy\<close>

text \<open>
  C3. Let the vector be valid. When \<open>Emplace\<close>, \<open>Insert\<close> or \<open>PushBack\<close> on a full
  vector (size equal to capacity) returns, the capacity is \<open>1\<close> if it was \<open>0\<close> and twice
  what it was otherwise, and one block has been allocated. When the values of a list
  \<open>vs\<close> have been appended one at a time to an empty vector, the size is the length \<open>n\<close>
  of \<open>vs\<close>; for \<open>n = 0\<close> the capacity is \<open>0\<close> and nothing has been allocated; for
  \<open>n > 0\<close> the capacity is \<open>2 ^ k\<close> for the least \<open>k\<close> with \<open>n \<le> 2 ^ k\<close>, so
  \<open>2 ^ k < 2 * n\<close>, and \<open>k + 1\<close> blocks have been allocated, one by each reallocation.
\<close>

theorem growth_policy:
  assumes "valid env this m"
  shows "(Size this = Capacity this \<longrightarrow>
            Emplace env pos args this m = (Inr r, this', m')
            \<or> Insert env pos args this m = (Inr r, this', m')
            \<or> PushBack env args this m = (Inr (), this', m') \<longrightarrow>
            Capacity this' = (if Capacity this = 0 then 1 else 2 * Capacity this)
            \<and> brk m' = brk m + 1)
     \<and> (this = Vector_default \<longrightarrow> PushBack_each env vs this m = (Inr (), this', m') \<longrightarrow>
            Size this' = length vs
            \<and> (vs = [] \<longrightarrow> Capacity this' = 0 \<and> brk m' = brk m)
            \<and> (vs \<noteq> [] \<longrightarrow>
                 (\<exists>k. Capacity this' = 2 ^ k \<and> length vs \<le> 2 ^ k \<and> 2 ^ k < 2 * length vs
                    \<and> (\<forall>j. length vs \<le> 2 ^ j \<longrightarrow> k \<le> j)
                    \<and> brk m' = brk m + (k + 1))))"
proof (intro conjI impI)
  assume full: "Size this = Capacity this"
    and run: "Emplace env pos args this m = (Inr r, this', m')
            \<or> Insert env pos args this m = (Inr r, this', m')
            \<or> PushBack env args this m = (Inr (), this', m')"
  have cap: "Capacity this = m_capacity (m_data this)" "Capacity this' = m_capacity (m_data this')"
    by (simp_all add: Capacity_def RawMemory_Capacity_def)
  from run consider
      "Emplace env (fst pos, snd pos) args this m = (Inr r, this', m')"
    | "PushBack env args this m = (Inr (), this', m')"
    by (auto simp: Insert_def)
  then have "m_capacity (m_data this') =
           (if m_size this < m_capacity (m_data this) then m_capacity (m_data this)
            else if m_size this = 0 then 1 else 2 * m_size this)
      \<and> brk m' = (if m_size this < m_capacity (m_data this) then brk m else Suc (brk m))"
  proof cases
    case 1
    from Emplace_Inr(7,9) [OF assms 1] show ?thesis by simp
  next
    case 2
    from PushBack_Inr(3,4) [OF assms 2] show ?thesis by simp
  qed
  with full show "Capacity this' = (if Capacity this = 0 then 1 else 2 * Capacity this)"
    and "brk m' = brk m + 1"
    by (simp_all add: cap Size_def)
next
  assume empty: "this = Vector_default"
    and run: "PushBack_each env vs this m = (Inr (), this', m')"
  from empty have "doubled (brk m) this m"
    by (simp add: doubled_def Vector_default_def RawMemory_default_def)
  from PushBack_each_doubled [OF assms this run] empty
  have d: "doubled (brk m) this' m'" and n: "m_size this' = length vs"
    by (simp_all add: Vector_default_def)
  show "Size this' = length vs" using n by (simp add: Size_def)
  show "Capacity this' = 0" and "brk m' = brk m" if "vs = []"
    using that run empty
    by (auto simp: Capacity_def RawMemory_Capacity_def Vector_default_def RawMemory_default_def)
  show "\<exists>k. Capacity this' = 2 ^ k \<and> length vs \<le> 2 ^ k \<and> 2 ^ k < 2 * length vs
                    \<and> (\<forall>j. length vs \<le> 2 ^ j \<longrightarrow> k \<le> j)
                    \<and> brk m' = brk m + (k + 1)" if "vs \<noteq> []"
  proof -
    from that n have "m_size this' \<noteq> 0" by simp
    with d n obtain k where k: "m_capacity (m_data this') = 2 ^ k" "length vs \<le> 2 ^ k"
      "2 ^ k < 2 * length vs" "brk m' = brk m + (k + 1)"
      by (auto simp: doubled_def)
    have "k \<le> j" if "length vs \<le> 2 ^ j" for j
    proof (rule ccontr)
      assume "\<not> k \<le> j"
      then have "Suc j \<le> k" by simp
      then have "(2::nat) ^ Suc j \<le> 2 ^ k" by (rule power_increasing) simp
      with that k(3) show False by simp
    qed
    with k show ?thesis
      by (auto simp: Capacity_def RawMemory_Capacity_def)
  qed
qed

theorem growth_policy_witness:
  "Size (fst (snd (PushBack_each int_env [CopyOf 1, CopyOf 2, CopyOf 3] Vector_default
        (mach start)))) = 3
   \<and> Capacity (fst (snd (PushBack_each int_env [CopyOf 1, CopyOf 2, CopyOf 3] Vector_default
        (mach start)))) = 4
   \<and> brk (snd (snd (PushBack_each int_env [CopyOf 1, CopyOf 2, CopyOf 3] Vector_default
        (mach start)))) = 3
   \<and> Capacity (fst (snd (PushBack int_env (CopyOf 9) full_vector two_elements))) = 4"
proof -
  define res where
    "res = PushBack_each int_env [CopyOf 1, CopyOf 2, CopyOf (3::nat)] Vector_default (mach start)"
  define one where "one = PushBack int_env (CopyOf 9) full_vector two_elements"
  have v0: "valid int_env Vector_default (mach start :: nat machine)"
    by (simp add: valid_def Vector_default_def RawMemory_default_def start_def int_env_def
        size_t_range_def)
  have v: "valid int_env full_vector two_elements"
    by (rule valid_full_vector) (simp_all add: int_env_def)
  have "fst res = Inr ()"
    by (simp add: res_def model_defs PushBack_def EmplaceBack_def int_env_def Vector_default_def
        RawMemory_default_def start_def)
  then have "res = (Inr (), fst (snd res), snd (snd res))" by (simp add: prod_eq_iff)
  then have r: "PushBack_each int_env [CopyOf 1, CopyOf 2, CopyOf 3] Vector_default (mach start)
      = (Inr (), fst (snd res), snd (snd res))"
    by (simp only: res_def [symmetric])
  have "fst one = Inr ()"
    by (simp add: one_def model_defs PushBack_def EmplaceBack_def int_env_def full_vector_def
        two_elements_def)
  then have "one = (Inr (), fst (snd one), snd (snd one))" by (simp add: prod_eq_iff)
  then have q: "PushBack int_env (CopyOf 9) full_vector two_elements
      = (Inr (), fst (snd one), snd (snd one))"
    by (simp only: one_def [symmetric])
  have c: "Size full_vector = Capacity full_vector" "Capacity full_vector = 2"
    by (simp_all add: Capacity_def RawMemory_Capacity_def Size_def full_vector_def)
  have b0: "brk (mach start :: nat machine) = 0" by (simp add: start_def)
  note G = growth_policy [OF v0, of "(None, 0)" "CopyOf 0" "(None, 0)" "fst (snd res)"
      "snd (snd res)" "[CopyOf 1, CopyOf 2, CopyOf 3]"]
  from G [THEN conjunct2, rule_format, OF refl r] b0
  have "Size (fst (snd res)) = 3
      \<and> (\<exists>k. Capacity (fst (snd res)) = 2 ^ k \<and> (3::nat) \<le> 2 ^ k \<and> (2::nat) ^ k < 6
             \<and> brk (snd (snd res)) = k + 1)"
    by auto
  then obtain k where s: "Size (fst (snd res)) = 3" and
    k: "Capacity (fst (snd res)) = 2 ^ k" "(3::nat) \<le> 2 ^ k" "(2::nat) ^ k < 6"
      "brk (snd (snd res)) = k + 1"
    by blast
  have "k < 3"
  proof (rule ccontr)
    assume "\<not> k < 3"
    then have "3 \<le> k" by simp
    then have "(2::nat) ^ 3 \<le> 2 ^ k" by (rule power_increasing) simp
    with k(3) show False by simp
  qed
  then consider "k = 0" | "k = 1" | "k = 2" by linarith
  then have "k = 2" using k(2) by cases simp_all
  with k have 1: "Capacity (fst (snd res)) = 4 \<and> brk (snd (snd res)) = 3" by simp
  note H = growth_policy [OF v, of "(None, 0)" "CopyOf 9" "(None, 0)" "fst (snd one)"
      "snd (snd one)" "[]"]
  from H [THEN conjunct1, rule_format, OF c(1) disjI2 [OF disjI2 [OF q]]] c(2)
  have 2: "Capacity (fst (snd one)) = 4" by simp
  from s 1 2 show ?thesis by (simp add: res_def one_def)
qed

subsection \<open>C4: moving a vector\<close>

text \<open>
  C4, as amended. The move constructor swaps the source with a default-constructed
  vector: the new vector has the fields of the source, and the source is left with size
  0, capacity 0 and a null buffer. Move assignment between two different objects swaps
  their fields, so the source is left with the size, capacity and buffer that the
  destination had. Neither touches the machine: no allocation, no construction,
  assignment or destruction of an element.
\<close>

theorem Vector_move_is_swap:
  "Vector_move other = (other, Vector_default)
   \<and> Size Vector_default = 0 \<and> Capacity Vector_default = 0
   \<and> m_buffer (m_data Vector_default) = None
   \<and> (vecs w this = Some a \<and> vecs w rhs = Some b \<longrightarrow>
        Vector_move_assign this rhs w
          = (Inr (), w\<lparr>vecs := (vecs w)(this \<mapsto> b, rhs \<mapsto> a)\<rparr>))
   \<and> (vecs w this = None \<and> vecs w rhs = Some b \<longrightarrow>
        Vector_move_construct this rhs w
          = (Inr (), w\<lparr>vecs := (vecs w)(this \<mapsto> b, rhs \<mapsto> Vector_default)\<rparr>))
   \<and> mach (snd (Vector_move_assign this rhs w)) = mach w
   \<and> mach (snd (Vector_move_construct this rhs w)) = mach w"
  by (auto simp: Vector_move_def Swap_eq Vector_default_def RawMemory_default_def Size_def
      Capacity_def RawMemory_Capacity_def Vector_move_assign_def swap_objects_def
      Vector_move_construct_def fun_upd_idem split: option.splits)

theorem Vector_move_is_swap_witness:
  "vecs (snd (Vector_move_assign 0 1 two_vectors)) 1
     = Some \<lparr>m_data = \<lparr>m_buffer = Some 0, m_capacity = 2\<rparr>, m_size = 2\<rparr>
   \<and> vecs (snd (Vector_move_construct 2 0 two_vectors)) 0 = Some Vector_default
   \<and> mach (snd (Vector_move_assign 0 1 two_vectors)) = mach two_vectors"
proof -
  have "vecs two_vectors 0 = Some \<lparr>m_data = \<lparr>m_buffer = Some 0, m_capacity = 2\<rparr>, m_size = 2\<rparr>"
    and "vecs two_vectors 1 = Some \<lparr>m_data = \<lparr>m_buffer = Some 1, m_capacity = 4\<rparr>, m_size = 1\<rparr>"
    and "vecs two_vectors 2 = None"
    by (simp_all add: two_vectors_def)
  with Vector_move_is_swap [of _ two_vectors 0 _ 1]
    Vector_move_is_swap [of _ two_vectors 2 _ 0]
  show ?thesis by simp
qed

text \<open>
  C4 as stated fails for move assignment into a non-empty destination: the source
  (object 1) is left with the two elements and the capacity 2 of the destination.
\<close>

theorem Vector_move_assign_counterexample:
  "Size (the (vecs (snd (Vector_move_assign 0 1 two_vectors)) 1)) = 2
   \<and> Capacity (the (vecs (snd (Vector_move_assign 0 1 two_vectors)) 1)) = 2"
  by (simp add: model_defs two_vectors_def)

subsection \<open>C5: moving a raw storage owner\<close>

text \<open>
  C5, as amended. Move construction gives the new owner the buffer and the capacity of the
  source and leaves the source with a null address; destroying an owner whose address is
  null leaves the heap as it is. Move assignment is \<open>Swap\<close>: the two owners exchange their
  buffer and capacity, so the source afterwards owns what the destination owned before;
  on self-assignment nothing changes. None of the three steps touches the heap or depends
  on the capacity.
\<close>

theorem RawMemory_move_transfers_ownership:
  "RawMemory_move_ctor other = (other, other\<lparr>m_buffer := None\<rparr>)
   \<and> RawMemory_dtor (other\<lparr>m_buffer := None\<rparr>) m = (Inr (), m)
   \<and> RawMemory_move_assign this rhs objs = objs(this := objs rhs, rhs := objs this)"
  by (auto simp: RawMemory_move_ctor_def RawMemory_dtor_def Deallocate_def operator_delete_def
      RawMemory_move_assign_def RawMemory_Swap_eq)

text \<open>
  C5 as stated fails for move assignment: assigned to an owner that holds a block, the
  source is left with that block, not with a null address.
\<close>

theorem RawMemory_move_assign_counterexample:
  "m_buffer (RawMemory_move_assign 0 1
      ((\<lambda>_. RawMemory_default)(0 := \<lparr>m_buffer = Some 5, m_capacity = 2\<rparr>,
                                  1 := \<lparr>m_buffer = Some 7, m_capacity = 3\<rparr>)) 1) \<noteq> None"
  by (simp add: RawMemory_move_assign_def RawMemory_Swap_eq)

subsection \<open>C6: relocation moves or copies\<close>

text \<open>
  C6. \<open>InitializeDataUsingOtherData\<close> is the relocation of \<open>Reserve\<close> and of
  \<open>EmplaceWithRealloc\<close>. When it has relocated \<open>n\<close> elements from a block to another
  one, the \<open>n\<close> destination slots hold the values of the \<open>n\<close> source elements. If the
  element type is nothrow-move-constructible or not copy-constructible, each of the \<open>n\<close>
  source elements is left moved-from; otherwise the source block is as it was. The two
  traits decide for the whole call.
\<close>

theorem relocation_moves_or_copies:
  assumes "InitializeDataUsingOtherData env (Some a, i) (Some b, j) n m = (Inr u, m')"
    and "a \<noteq> b" and "heap m a = Some A" and "heap m b = Some B"
  shows "heap m' b = Some (take j B @ take n (drop i A) @ drop (j + n) B)
     \<and> heap m' a = Some
         (if is_nothrow_move_constructible env \<or> \<not> is_copy_constructible env
          then take i A @ map (map_option (moved_from env)) (take n (drop i A)) @ drop (i + n) A
          else A)"
  using InitializeDataUsingOtherData_Inr(1) [OF assms] InitializeDataUsingOtherData_source [OF assms]
  by simp

theorem relocation_moves_or_copies_witness:
  "heap (snd (InitializeDataUsingOtherData careful_env (Some 0, 0) (Some 1, 0) 2 two_blocks)) 1
     = Some [Some 7, Some 8, None]
   \<and> heap (snd (InitializeDataUsingOtherData careful_env (Some 0, 0) (Some 1, 0) 2 two_blocks)) 0
     = Some [Some 7, Some 8]
   \<and> heap (snd (InitializeDataUsingOtherData move_only_env (Some 0, 0) (Some 1, 0) 1 two_blocks)) 0
     = Some [Some 0, Some 8]"
proof -
  let ?r = "InitializeDataUsingOtherData careful_env (Some 0, 0) (Some 1, 0) 2 two_blocks"
  let ?q = "InitializeDataUsingOtherData move_only_env (Some 0, 0) (Some 1, 0) 1 two_blocks"
  have "fst ?r = Inr ()"
    by (simp add: model_defs careful_env_def two_blocks_def)
  then have r: "?r = (Inr (), snd ?r)" by (simp add: prod_eq_iff)
  have "fst ?q = Inr ()"
    by (simp add: model_defs move_only_env_def two_blocks_def)
  then have q: "?q = (Inr (), snd ?q)" by (simp add: prod_eq_iff)
  have ne: "(0::nat) \<noteq> 1" by simp
  have a: "heap two_blocks 0 = Some [Some 7, Some 8]"
    and b: "heap two_blocks 1 = Some [None, None, None]"
    by (simp_all add: two_blocks_def)
  from relocation_moves_or_copies [OF r ne a b] relocation_moves_or_copies [OF q ne a b]
  show ?thesis by (simp add: careful_env_def move_only_env_def)
qed

subsection \<open>C7: insertion and erasure keep the order of the elements\<close>

text \<open>
  C7. Let the vector be valid. When \<open>Emplace\<close> or \<open>Insert\<close> at index \<open>i\<close> returns,
  \<open>i\<close> was at most the size, the size has grown by one, the new element \<open>x\<close>, the value
  built from the arguments, is at index \<open>i\<close>, the elements that were before index \<open>i\<close>
  are where they were, and the elements that were at index \<open>i\<close> or after it are one
  slot further right, in the same order. The values \<open>ys\<close> of the old elements are those
  at the call, except that an element of the vector that was passed as the rvalue
  argument has been left moved-from by the constructor of the new element. When \<open>Erase\<close>
  at index \<open>i\<close> returns, \<open>i\<close> was below the size, the size has gone down by one, the
  elements before index \<open>i\<close> are where they were, the element at index \<open>i\<close> is gone, and
  the later elements are one slot further left, in the same order.
\<close>

theorem insert_and_erase_keep_the_order:
  assumes "valid env this m"
  shows "(Emplace env (b, i) args this m = (Inr r, this', m')
          \<or> Insert env (b, i) args this m = (Inr r, this', m') \<longrightarrow>
            i \<le> Size this \<and> Size this' = Size this + 1
            \<and> length (elements this' m') = Size this + 1
            \<and> (\<exists>x ys. argument_value args m = Some x
                  \<and> ys = elements this (moved_out env args m)
                  \<and> elements this' m' = take i ys @ x # drop i ys
                  \<and> length ys = Size this
                  \<and> (\<forall>k<Size this.
                        ys ! k = elements this m ! k
                        \<or> args = MoveFrom (b, k)
                          \<and> ys ! k = moved_from env (elements this m ! k))))
     \<and> (Erase env (b, i) this m = (Inr r, this', m') \<longrightarrow>
            i < Size this \<and> Size this' = Size this - 1
            \<and> length (elements this m) = Size this
            \<and> elements this' m' = take i (elements this m) @ drop (Suc i) (elements this m))"
proof (intro conjI impI)
  assume "Emplace env (b, i) args this m = (Inr r, this', m')
          \<or> Insert env (b, i) args this m = (Inr r, this', m')"
  then have run: "Emplace env (b, i) args this m = (Inr r, this', m')"
    by (simp add: Insert_def)
  note E = Emplace_Inr [OF assms run]
  from E(5) obtain x where x: "argument_value args m = Some x"
    "elements this' m' = take i (elements this (moved_out env args m)) @ x
       # drop i (elements this (moved_out env args m))"
    by blast
  note M = elements_moved_out [OF assms, of args]
  show "i \<le> Size this" using E(2) by (simp add: Size_def)
  show "Size this' = Size this + 1" using E(3) by (simp add: Size_def)
  show "length (elements this' m') = Size this + 1"
    using valid_elements_length [OF E(6)] E(3) by (simp add: Size_def)
  show "\<exists>x ys. argument_value args m = Some x
                  \<and> ys = elements this (moved_out env args m)
                  \<and> elements this' m' = take i ys @ x # drop i ys
                  \<and> length ys = Size this
                  \<and> (\<forall>k<Size this.
                        ys ! k = elements this m ! k
                        \<or> args = MoveFrom (b, k)
                          \<and> ys ! k = moved_from env (elements this m ! k))"
    using x M E(1) by (simp add: Size_def)
next
  assume run: "Erase env (b, i) this m = (Inr r, this', m')"
  note E = Erase_Inr [OF assms run]
  show "i < Size this" using E(2) by (simp add: Size_def)
  show "Size this' = Size this - 1" using E(3) by (simp add: Size_def)
  show "length (elements this m) = Size this"
    using valid_elements_length [OF assms] by (simp add: Size_def)
  show "elements this' m' = take i (elements this m) @ drop (Suc i) (elements this m)"
    by (rule E(6))
qed

theorem insert_and_erase_keep_the_order_witness:
  "elements (fst (snd (Insert int_env (Some 0, 1) (CopyOf 9) full_vector two_elements)))
        (snd (snd (Insert int_env (Some 0, 1) (CopyOf 9) full_vector two_elements))) = [7, 9, 8]
   \<and> Size (fst (snd (Insert int_env (Some 0, 1) (CopyOf 9) full_vector two_elements))) = 3
   \<and> elements (fst (snd (Erase int_env (Some 0, 0) full_vector two_elements)))
        (snd (snd (Erase int_env (Some 0, 0) full_vector two_elements))) = [8]
   \<and> Size (fst (snd (Erase int_env (Some 0, 0) full_vector two_elements))) = 1"
proof -
  let ?r = "Insert int_env (Some 0, 1) (CopyOf 9) full_vector two_elements"
  let ?q = "Erase int_env (Some 0, 0) full_vector two_elements"
  have v: "valid int_env full_vector two_elements"
    by (rule valid_full_vector) (simp_all add: int_env_def)
  have "fst ?r = Inr (Some 1, 1)"
    by (simp add: model_defs int_env_def full_vector_def two_elements_def)
  then have r: "?r = (Inr (Some 1, 1), fst (snd ?r), snd (snd ?r))" by (simp add: prod_eq_iff)
  have "fst ?q = Inr (Some 0, 0)"
    by (simp add: model_defs int_env_def full_vector_def two_elements_def)
  then have q: "?q = (Inr (Some 0, 0), fst (snd ?q), snd (snd ?q))" by (simp add: prod_eq_iff)
  have c: "Size full_vector = 2"
    by (simp add: Size_def full_vector_def)
  have e: "elements full_vector two_elements = [7, 8]"
    by (simp add: model_defs full_vector_def two_elements_def)
  have a: "argument_value (CopyOf 9) two_elements = Some (9::nat)"
    "moved_out int_env (CopyOf 9) two_elements = two_elements"
    by (simp_all add: argument_value_def moved_out_def)
  from insert_and_erase_keep_the_order [OF v, of "Some 0" 1 "CopyOf 9" "(Some 1, 1)"
      "fst (snd ?r)" "snd (snd ?r)"] r c e a
  have 1: "elements (fst (snd ?r)) (snd (snd ?r)) = [7, 9, 8] \<and> Size (fst (snd ?r)) = 3"
    by simp
  from insert_and_erase_keep_the_order [OF v, of "Some 0" 0 "CopyOf 9" "(Some 0, 0)"
      "fst (snd ?q)" "snd (snd ?q)"] q c e
  have 2: "elements (fst (snd ?q)) (snd (snd ?q)) = [8] \<and> Size (fst (snd ?q)) = 1"
    by simp
  from 1 2 show ?thesis by simp
qed

subsection \<open>C8: the copy constructor\<close>

text \<open>
  C8. When the copy constructor returns for a valid source, the new vector has the size
  of the source and holds the same element values, whatever the capacity of the source
  (its own capacity is the size of the source); the source holds what it held.
\<close>

theorem copy_construct_equal:
  assumes "valid env other m" and "Vector_copy env other m = (Inr this, m')"
  shows "Size this = Size other \<and> Capacity this = Size other
     \<and> elements this m' = elements other m \<and> elements other m' = elements other m"
  using Vector_copy_Inr [OF assms]
  by (simp add: Capacity_def RawMemory_Capacity_def Size_def)

theorem copy_construct_equal_witness:
  "Size (projr (fst (Vector_copy careful_env full_vector two_elements))) = 2
   \<and> elements (projr (fst (Vector_copy careful_env full_vector two_elements)))
        (snd (Vector_copy careful_env full_vector two_elements)) = [7, 8]
   \<and> elements full_vector (snd (Vector_copy careful_env full_vector two_elements)) = [7, 8]"
proof -
  let ?r = "Vector_copy careful_env full_vector two_elements"
  have v: "valid careful_env full_vector two_elements"
    by (rule valid_full_vector) (simp_all add: careful_env_def)
  have "fst ?r = Inr \<lparr>m_data = \<lparr>m_buffer = Some 1, m_capacity = 2\<rparr>, m_size = 2\<rparr>"
    by (simp add: model_defs careful_env_def full_vector_def two_elements_def)
  then have r: "?r = (Inr (projr (fst ?r)), snd ?r)"
    by (simp add: prod_eq_iff)
  have e: "elements full_vector two_elements = [7, 8]" "Size full_vector = 2"
    by (simp_all add: model_defs full_vector_def two_elements_def)
  from copy_construct_equal [OF v r] e show ?thesis by simp
qed

subsection \<open>C9: \<open>Reserve\<close> and \<open>Resize\<close> allocate the capacity asked for\<close>

text \<open>
  C9. On a valid vector, \<open>Reserve\<close> with a capacity not above the current one returns
  and changes neither the vector nor the machine. With a larger capacity, when it returns,
  the capacity is the one asked for, and the size and the element values are what they
  were. \<open>Resize\<close> to a size above the current capacity, when it returns, leaves the
  capacity (and the size) equal to that size.
\<close>

theorem Reserve_exact_capacity:
  assumes "valid env this m"
  shows "(new_capacity \<le> Capacity this \<longrightarrow>
            Reserve env new_capacity this m = (Inr (), this, m))
     \<and> (Capacity this < new_capacity \<longrightarrow>
            Reserve env new_capacity this m = (Inr u, this', m') \<longrightarrow>
            Capacity this' = new_capacity \<and> Size this' = Size this
            \<and> elements this' m' = elements this m)
     \<and> (Capacity this < new_size \<longrightarrow>
            Resize env new_size this m = (Inr u, this', m') \<longrightarrow>
            Capacity this' = new_size \<and> Size this' = new_size)"
  using Reserve_small [of new_capacity this env m]
    Reserve_Inr [OF assms, of new_capacity u this' m']
    Resize_grow_Inr [of this new_size env m u this' m'] valid_facts(2) [OF assms]
  by (simp add: Capacity_def RawMemory_Capacity_def Size_def)

theorem Reserve_exact_capacity_witness:
  "Capacity (fst (snd (Reserve int_env 5 full_vector two_elements))) = 5
   \<and> Size (fst (snd (Reserve int_env 5 full_vector two_elements))) = 2
   \<and> elements (fst (snd (Reserve int_env 5 full_vector two_elements)))
        (snd (snd (Reserve int_env 5 full_vector two_elements))) = [7, 8]
   \<and> Reserve int_env 1 full_vector two_elements = (Inr (), full_vector, two_elements)
   \<and> Capacity (fst (snd (Resize int_env 3 full_vector two_elements))) = 3"
proof -
  let ?r = "Reserve int_env 5 full_vector two_elements"
  let ?q = "Resize int_env 3 full_vector two_elements"
  have v: "valid int_env full_vector two_elements"
    by (rule valid_full_vector) (simp_all add: int_env_def)
  have "fst ?r = Inr ()"
    by (simp add: model_defs int_env_def full_vector_def two_elements_def)
  then have r: "?r = (Inr (), fst (snd ?r), snd (snd ?r))" by (simp add: prod_eq_iff)
  have "fst ?q = Inr ()"
    by (simp add: model_defs int_env_def full_vector_def two_elements_def)
  then have q: "?q = (Inr (), fst (snd ?q), snd (snd ?q))" by (simp add: prod_eq_iff)
  have c: "Capacity full_vector = 2" "Size full_vector = 2"
    by (simp_all add: Capacity_def RawMemory_Capacity_def Size_def full_vector_def)
  have e: "elements full_vector two_elements = [7, 8]"
    by (simp add: model_defs full_vector_def two_elements_def)
  from Reserve_exact_capacity [OF v, of 5 "()" "fst (snd ?r)" "snd (snd ?r)" 0] r c e
  have 1: "Capacity (fst (snd ?r)) = 5 \<and> Size (fst (snd ?r)) = 2
      \<and> elements (fst (snd ?r)) (snd (snd ?r)) = [7, 8]"
    by simp
  from Reserve_exact_capacity [OF v, of 1 "()" full_vector two_elements 0] c
  have 2: "Reserve int_env 1 full_vector two_elements = (Inr (), full_vector, two_elements)"
    by simp
  from Reserve_exact_capacity [OF v, of 0 "()" "fst (snd ?q)" "snd (snd ?q)" 3] q c
  have 3: "Capacity (fst (snd ?q)) = 3"
    by simp
  from 1 2 3 show ?thesis by simp
qed

subsection \<open>C10: what an insertion returns\<close>

text \<open>
  C10. Let the vector be valid. When \<open>Emplace\<close> or \<open>Insert\<close> at \<open>pos\<close> returns, the
  iterator returned is \<open>begin() + (pos - begin())\<close>, with the offset taken in the vector
  as it was and \<open>begin()\<close> in the vector as it is now, after a reallocation if there was
  one; it points at an element of the vector, and that element holds the value built
  from the arguments. When \<open>EmplaceBack\<close> returns, the reference returned is to the
  element at the index that was the size, the size has grown by one, and that element
  holds the value built from the arguments.
\<close>

theorem insertion_returns_the_new_element:
  assumes "valid env this m"
  shows "(Emplace env pos args this m = (Inr r, this', m')
          \<or> Insert env pos args this m = (Inr r, this', m') \<longrightarrow>
            r = ptr_add (Vector_begin this') (ptr_diff pos (Vector_begin this))
            \<and> ptr_diff pos (Vector_begin this) < Size this'
            \<and> (\<exists>x. argument_value args m = Some x \<and> load r m' = (Inr x, m')
                  \<and> elements this' m' ! ptr_diff pos (Vector_begin this) = x))
     \<and> (EmplaceBack env args this m = (Inr r, this', m') \<longrightarrow>
            r = ptr_add (Vector_begin this') (Size this)
            \<and> Size this' = Size this + 1
            \<and> (\<exists>x. argument_value args m = Some x \<and> load r m' = (Inr x, m')
                  \<and> elements this' m' ! Size this = x))"
proof -
  have main: "r = ptr_add (Vector_begin this') i \<and> i \<le> m_size this
      \<and> m_size this' = Suc (m_size this)
      \<and> (\<exists>x. argument_value args m = Some x \<and> load r m' = (Inr x, m')
            \<and> elements this' m' ! i = x)"
    if run: "Emplace env (b, i) args this m = (Inr r, this', m')" for b i
  proof -
    note E = Emplace_Inr [OF assms run]
    from E(5) obtain x where x: "argument_value args m = Some x"
      "elements this' m' = take i (elements this (moved_out env args m)) @ x
         # drop i (elements this (moved_out env args m))"
      by blast
    have "length (elements this (moved_out env args m)) = m_size this"
      by (rule valid_elements_length [OF valid_moved_out [OF assms]])
    with E(2) have len: "length (take i (elements this (moved_out env args m))) = i"
      by simp
    have at: "elements this' m' ! i = x"
      unfolding x(2) by (rule nth_at_length [OF len])
    from E(2) E(3) have "i < m_size this'" by simp
    from valid_load [OF E(6) this] at E(4)
    have "load r m' = (Inr x, m')" by simp
    with x(1) at E(2) E(3) E(4) show ?thesis
      by (simp add: Vector_begin_def GetAddress_def)
  qed
  show ?thesis
  proof (intro conjI impI)
    assume "Emplace env pos args this m = (Inr r, this', m')
          \<or> Insert env pos args this m = (Inr r, this', m')"
    then have "Emplace env (fst pos, snd pos) args this m = (Inr r, this', m')"
      by (simp add: Insert_def)
    from main [OF this]
    show "r = ptr_add (Vector_begin this') (ptr_diff pos (Vector_begin this))"
      and "ptr_diff pos (Vector_begin this) < Size this'"
      and "\<exists>x. argument_value args m = Some x \<and> load r m' = (Inr x, m')
                  \<and> elements this' m' ! ptr_diff pos (Vector_begin this) = x"
      by (auto simp: ptr_diff_def Vector_begin_def GetAddress_def Size_def)
  next
    assume "EmplaceBack env args this m = (Inr r, this', m')"
    then have "Emplace env (m_buffer (m_data this), m_size this) args this m = (Inr r, this', m')"
      by (simp add: EmplaceBack_eq [OF assms])
    from main [OF this]
    show "r = ptr_add (Vector_begin this') (Size this)"
      and "Size this' = Size this + 1"
      and "\<exists>x. argument_value args m = Some x \<and> load r m' = (Inr x, m')
                  \<and> elements this' m' ! Size this = x"
      by (auto simp: Size_def)
  qed
qed

theorem insertion_returns_the_new_element_witness:
  "fst (Insert int_env (Some 0, 1) (CopyOf 9) full_vector two_elements) = Inr (Some 1, 1)
   \<and> fst (load (Some 1, 1) (snd (snd (Insert int_env (Some 0, 1) (CopyOf 9) full_vector two_elements))))
       = Inr 9
   \<and> fst (EmplaceBack int_env (CopyOf 9) full_vector two_elements) = Inr (Some 1, 2)
   \<and> fst (load (Some 1, 2) (snd (snd (EmplaceBack int_env (CopyOf 9) full_vector two_elements))))
       = Inr 9"
proof -
  let ?r = "Insert int_env (Some 0, 1) (CopyOf 9) full_vector two_elements"
  let ?q = "EmplaceBack int_env (CopyOf 9) full_vector two_elements"
  have v: "valid int_env full_vector two_elements"
    by (rule valid_full_vector) (simp_all add: int_env_def)
  have fr: "fst ?r = Inr (Some 1, 1)"
    by (simp add: model_defs int_env_def full_vector_def two_elements_def)
  then have r: "?r = (Inr (Some 1, 1), fst (snd ?r), snd (snd ?r))" by (simp add: prod_eq_iff)
  have fq: "fst ?q = Inr (Some 1, 2)"
    by (simp add: model_defs int_env_def full_vector_def two_elements_def)
  then have q: "?q = (Inr (Some 1, 2), fst (snd ?q), snd (snd ?q))" by (simp add: prod_eq_iff)
  have a: "argument_value (CopyOf 9) two_elements = Some (9::nat)"
    by (simp add: argument_value_def)
  from insertion_returns_the_new_element [OF v, of "(Some 0, 1)" "CopyOf 9" "(Some 1, 1)"
      "fst (snd ?r)" "snd (snd ?r)"] r a
  have 1: "fst (load (Some 1, 1) (snd (snd ?r))) = Inr 9"
    by auto
  from insertion_returns_the_new_element [OF v, of "(Some 0, 1)" "CopyOf 9" "(Some 1, 2)"
      "fst (snd ?q)" "snd (snd ?q)"] q a
  have 2: "fst (load (Some 1, 2) (snd (snd ?q))) = Inr 9"
    by auto
  from fr fq 1 2 show ?thesis by simp
qed

end
